theory Spec2Isabelle
  imports Complex_Main
begin

section \<open>Convergence diagnostics of rstan's chains.cpp\<close>

text \<open>
  The development embeds the four diagnostic entry points of
  \<^verbatim>\<open>rstan/rstan/src/chains.cpp\<close> (\<^verbatim>\<open>effective_sample_size\<close>,
  \<^verbatim>\<open>effective_sample_size2\<close>, \<^verbatim>\<open>split_potential_scale_reduction\<close>,
  \<^verbatim>\<open>split_potential_scale_reduction2\<close>) together with the helpers they call.
\<close>

subsection \<open>Values of C++ \<^verbatim>\<open>double\<close>\<close>

text \<open>
  A \<^verbatim>\<open>double\<close> is modelled as a real number or one of the three special values of
  IEEE 754 arithmetic. Finite arithmetic is exact: rounding and overflow are not modelled, so
  the model is an idealisation of the arithmetic of the program, and there is a single zero,
  read as \<open>+0\<close> when it divides. The special values follow IEEE 754: a division by
  zero yields an infinity or \<open>NaN\<close>, every comparison with \<open>NaN\<close> is false.
  An identity that holds only because finite values cancel exactly (the variance of equal
  draws is zero, a statistic is unchanged when a constant is added to every draw) is a fact
  of this model and not of the rounded arithmetic.
\<close>

datatype double = Fin real | PInf | NInf | NaN

instantiation double :: "{plus, minus, uminus, times, inverse, ord}"
begin

fun uminus_double :: "double \<Rightarrow> double" where
  "uminus_double (Fin a) = Fin (- a)"
| "uminus_double PInf = NInf"
| "uminus_double NInf = PInf"
| "uminus_double NaN = NaN"

fun plus_double :: "double \<Rightarrow> double \<Rightarrow> double" where
  "plus_double (Fin a) (Fin b) = Fin (a + b)"
| "plus_double NaN y = NaN"
| "plus_double x NaN = NaN"
| "plus_double PInf NInf = NaN"
| "plus_double NInf PInf = NaN"
| "plus_double PInf y = PInf"
| "plus_double x PInf = PInf"
| "plus_double NInf y = NInf"
| "plus_double x NInf = NInf"

definition minus_double :: "double \<Rightarrow> double \<Rightarrow> double" where
  "minus_double x y = x + (- y)"

fun times_double :: "double \<Rightarrow> double \<Rightarrow> double" where
  "times_double (Fin a) (Fin b) = Fin (a * b)"
| "times_double NaN y = NaN"
| "times_double x NaN = NaN"
| "times_double PInf (Fin b) = (if b = 0 then NaN else if 0 < b then PInf else NInf)"
| "times_double NInf (Fin b) = (if b = 0 then NaN else if 0 < b then NInf else PInf)"
| "times_double (Fin a) PInf = (if a = 0 then NaN else if 0 < a then PInf else NInf)"
| "times_double (Fin a) NInf = (if a = 0 then NaN else if 0 < a then NInf else PInf)"
| "times_double PInf PInf = PInf"
| "times_double PInf NInf = NInf"
| "times_double NInf PInf = NInf"
| "times_double NInf NInf = PInf"

fun divide_double :: "double \<Rightarrow> double \<Rightarrow> double" where
  "divide_double (Fin a) (Fin b) =
     (if b \<noteq> 0 then Fin (a / b)
      else if a = 0 then NaN else if 0 < a then PInf else NInf)"
| "divide_double NaN y = NaN"
| "divide_double x NaN = NaN"
| "divide_double (Fin a) PInf = Fin 0"
| "divide_double (Fin a) NInf = Fin 0"
| "divide_double PInf (Fin b) = (if 0 \<le> b then PInf else NInf)"
| "divide_double NInf (Fin b) = (if 0 \<le> b then NInf else PInf)"
| "divide_double PInf y = NaN"
| "divide_double NInf y = NaN"

definition inverse_double :: "double \<Rightarrow> double" where
  "inverse_double x = divide (Fin 1) x"

fun less_eq_double :: "double \<Rightarrow> double \<Rightarrow> bool" where
  "less_eq_double (Fin a) (Fin b) = (a \<le> b)"
| "less_eq_double NaN y = False"
| "less_eq_double x NaN = False"
| "less_eq_double NInf y = True"
| "less_eq_double x PInf = True"
| "less_eq_double x NInf = False"
| "less_eq_double PInf y = False"

fun less_double :: "double \<Rightarrow> double \<Rightarrow> bool" where
  "less_double (Fin a) (Fin b) = (a < b)"
| "less_double NaN y = False"
| "less_double x NaN = False"
| "less_double x NInf = False"
| "less_double PInf y = False"
| "less_double NInf y = True"
| "less_double x PInf = True"

instance ..

end

text \<open>\<^verbatim>\<open>sqrt\<close> of \<^verbatim>\<open><cmath>\<close>.\<close>

fun dsqrt :: "double \<Rightarrow> double" where
  "dsqrt (Fin a) = (if a < 0 then NaN else Fin (sqrt a))"
| "dsqrt PInf = PInf"
| "dsqrt NInf = NaN"
| "dsqrt NaN = NaN"

subsection \<open>Values of \<^verbatim>\<open>unsigned int\<close>\<close>

text \<open>
  An \<^verbatim>\<open>unsigned int\<close> is a natural number below \<open>2^32\<close>; subtraction and
  multiplication wrap around. The conversion to \<^verbatim>\<open>double\<close> is exact.
\<close>

definition uint_sub :: "nat \<Rightarrow> nat \<Rightarrow> nat" where
  "uint_sub a b = (a + 4294967296 - b mod 4294967296) mod 4294967296"

definition uint_mul :: "nat \<Rightarrow> nat \<Rightarrow> nat" where
  "uint_mul a b = (a * b) mod 4294967296"

definition of_uint :: "nat \<Rightarrow> double" where
  "of_uint n = Fin (real n)"

subsection \<open>Failures\<close>

text \<open>
  The exceptions that the entry points forward to the caller (through
  \<^verbatim>\<open>BEGIN_RCPP\<close>/\<^verbatim>\<open>END_RCPP\<close>), and one more outcome for an access that
  C++ leaves undefined (an index or an iterator outside its vector).
\<close>

datatype failure = domain_error | out_of_range | undefined_access

definition bindE :: "failure + 'a \<Rightarrow> ('a \<Rightarrow> failure + 'b) \<Rightarrow> failure + 'b" where
  "bindE r f = (case r of Inl e \<Rightarrow> Inl e | Inr x \<Rightarrow> f x)"

text \<open>A loop whose body can fail, run over the elements in order.\<close>

fun mapE :: "('a \<Rightarrow> failure + 'b) \<Rightarrow> 'a list \<Rightarrow> failure + 'b list" where
  "mapE f [] = Inr []"
| "mapE f (x # xs) = bindE (f x) (\<lambda>y. bindE (mapE f xs) (\<lambda>ys. Inr (y # ys)))"

text \<open>\<^verbatim>\<open>v[i]\<close> on a \<^verbatim>\<open>std::vector\<close> or an Rcpp vector.\<close>

definition vec_at :: "'a list \<Rightarrow> nat \<Rightarrow> failure + 'a" where
  "vec_at v i = (if i < length v then Inr (v ! i) else Inl undefined_access)"

subsection \<open>The Stan Math helpers\<close>

text \<open>
  Modelled from the spec: \<^verbatim>\<open>stan::math::sum\<close>, which chains.cpp calls and does not
  define: the sum of the elements.
\<close>

definition dsum :: "double list \<Rightarrow> double" where
  "dsum xs = foldl (+) (Fin 0) xs"

text \<open>
  Modelled from the spec: \<^verbatim>\<open>stan::math::mean\<close>, which chains.cpp calls and does not
  define: the arithmetic mean (spec 4.2).
\<close>

definition mean :: "double list \<Rightarrow> double" where
  "mean xs = dsum xs / of_uint (length xs)"

text \<open>
  Modelled from the spec: \<^verbatim>\<open>stan::math::variance\<close>, which chains.cpp calls and does
  not define: the unbiased sample variance, dividing by \<open>N - 1\<close> (spec 4.2; for a single
  element the spec leaves the quotient undefined, here it is the division \<open>0 / 0\<close>).
\<close>

definition variance :: "double list \<Rightarrow> double" where
  "variance xs =
     (let mu = mean xs
      in dsum (map (\<lambda>x. (x - mu) * (x - mu)) xs) / of_uint (length xs - 1))"

text \<open>
  Modelled from the spec: \<^verbatim>\<open>stan::math::autocovariance\<close>, which chains.cpp calls and
  does not define: for a chain of \<open>N\<close> values the sequence of length \<open>N\<close> whose entry at
  lag \<open>t\<close> is the sum over all valid offsets of \<open>(x[i] - mean) * (x[i+t] - mean)\<close>,
  divided by \<open>N\<close> (spec 4.1).
\<close>

definition autocovariance_at :: "double list \<Rightarrow> nat \<Rightarrow> double" where
  "autocovariance_at xs t =
     (let mu = mean xs
      in dsum (map (\<lambda>i. (xs ! i - mu) * (xs ! (i + t) - mu)) [0 ..< length xs - t])
           / of_uint (length xs))"

definition autocovariance :: "double list \<Rightarrow> double list" where
  "autocovariance xs = map (autocovariance_at xs) [0 ..< length xs]"

subsection \<open>Split R-hat on a matrix\<close>

text \<open>
  An \<^verbatim>\<open>Rcpp::NumericMatrix\<close>: \<open>nrow\<close> rows, and the columns in order;
  \<^verbatim>\<open>ncol()\<close> is the number of columns. In a matrix of R every column has \<open>nrow\<close>
  entries (\<open>rectangular\<close>), and both dimensions are R integers, below \<open>2^31\<close>.
\<close>

record NumericMatrix =
  nrow :: nat
  columns :: "double list list"

definition ncol :: "NumericMatrix \<Rightarrow> nat" where
  "ncol nm = length (columns nm)"

definition rectangular :: "NumericMatrix \<Rightarrow> bool" where
  "rectangular nm = list_all (\<lambda>c. length c = nrow nm) (columns nm)"

text \<open>
  The two \<^verbatim>\<open>split_chain.assign\<close> calls (lines 491-496 and 562-568): the range
  \<^verbatim>\<open>[begin, begin + n_samples/2)\<close> and the range \<^verbatim>\<open>[end - n_samples/2, end)\<close>
  of the chain's samples.
\<close>

definition split_chain :: "nat \<Rightarrow> double list \<Rightarrow> failure + (double list \<times> double list)" where
  "split_chain n_samples samples =
     (if n_samples div 2 \<le> length samples
      then Inr (take (n_samples div 2) samples,
                drop (length samples - n_samples div 2) samples)
      else Inl undefined_access)"

text \<open>
  The loop over the chains (lines 488-499 and 556-571): it appends, per chain, the mean and
  the variance of the first half and then of the second half.
\<close>

fun split_chain_moments ::
  "nat \<Rightarrow> double list list \<Rightarrow> failure + (double list \<times> double list)" where
  "split_chain_moments n_samples [] = Inr ([], [])"
| "split_chain_moments n_samples (samples # rest) =
     bindE (split_chain n_samples samples) (\<lambda>(h1, h2).
     bindE (split_chain_moments n_samples rest) (\<lambda>(split_chain_mean, split_chain_var).
       Inr (mean h1 # mean h2 # split_chain_mean,
            variance h1 # variance h2 # split_chain_var)))"

definition var_between :: "nat \<Rightarrow> double list \<Rightarrow> double" where
  "var_between n_samples split_chain_mean =
     of_uint (n_samples div 2) * variance split_chain_mean"

definition var_within :: "double list \<Rightarrow> double" where
  "var_within split_chain_var = mean split_chain_var"

text \<open>Lines 505 and 577: \<^verbatim>\<open>sqrt((var_between/var_within + n_samples/2 - 1)/(n_samples/2))\<close>.\<close>

definition srhat :: "nat \<Rightarrow> double list \<Rightarrow> double list \<Rightarrow> double" where
  "srhat n_samples split_chain_mean split_chain_var =
     dsqrt ((var_between n_samples split_chain_mean / var_within split_chain_var
               + of_uint (n_samples div 2) - Fin 1)
            / of_uint (n_samples div 2))"

text \<open>Lines 482-483 and 550-551: \<^verbatim>\<open>if (n_samples % 2 == 1) n_samples--;\<close>.\<close>

definition make_even :: "nat \<Rightarrow> nat" where
  "make_even n_samples = (if n_samples mod 2 = 1 then n_samples - 1 else n_samples)"

definition split_potential_scale_reduction2 :: "NumericMatrix \<Rightarrow> failure + double" where
  "split_potential_scale_reduction2 nm =
     (let n_samples = make_even (nrow nm)
      in bindE (split_chain_moments n_samples (columns nm))
           (\<lambda>(split_chain_mean, split_chain_var).
              Inr (srhat n_samples split_chain_mean split_chain_var)))"

subsection \<open>The simulation record\<close>

text \<open>
  The R list \<^verbatim>\<open>sim\<close> as chains.cpp reads it: the names of its elements, the R types
  of \<^verbatim>\<open>sim$chains\<close> and \<^verbatim>\<open>sim$samples\<close>, and the values that the Rcpp
  conversions deliver for the elements the code uses. \<open>samples\<close> is indexed by chain, then
  by parameter, and holds the draws. The counts are R integers, taken to be non-negative.
\<close>

datatype sexptype = NILSXP | INTSXP | REALSXP | STRSXP | VECSXP

record sim =
  names :: "string list"
  chains_type :: sexptype
  samples_type :: sexptype
  chains :: nat
  n_flatnames :: nat
  n_save :: "nat list"
  warmup2 :: "nat list"
  samples :: "double list list list"

definition snames :: "string list" where
  "snames = [''chains'', ''n_flatnames'', ''n_save'', ''warmup2'', ''samples'', ''permutation'']"

definition validate_sim :: "sim \<Rightarrow> failure + unit" where
  "validate_sim s =
     (if \<exists>it \<in> set snames. it \<notin> set (names s) then Inl domain_error
      else if chains_type s \<noteq> INTSXP \<and> chains_type s \<noteq> REALSXP then Inl domain_error
      else if samples_type s \<noteq> VECSXP then Inl domain_error
      else if length (samples s) \<noteq> chains s then Inl domain_error
      else Inr ())"

definition num_chains :: "sim \<Rightarrow> nat" where
  "num_chains s = chains s"

definition num_params :: "sim \<Rightarrow> nat" where
  "num_params s = n_flatnames s"

definition get_kept_samples :: "sim \<Rightarrow> nat \<Rightarrow> nat \<Rightarrow> failure + double list" where
  "get_kept_samples s k n =
     bindE (vec_at (samples s) k) (\<lambda>slst.
     bindE (vec_at slst n) (\<lambda>nv.
     bindE (vec_at (warmup2 s) k) (\<lambda>w.
       if w \<le> length nv then Inr (drop w nv) else Inl undefined_access)))"

definition validate_param_idx :: "sim \<Rightarrow> nat \<Rightarrow> failure + unit" where
  "validate_param_idx s n = (if n < num_params s then Inr () else Inl out_of_range)"

definition validate_chain_idx :: "sim \<Rightarrow> nat \<Rightarrow> failure + unit" where
  "validate_chain_idx s k = (let m = num_chains s in if k \<ge> m then Inl out_of_range else Inr ())"

text \<open>
  \<^verbatim>\<open>apply_kept_samples\<close> feeds \<^verbatim>\<open>nv[i]\<close> for \<open>i\<close> from \<^verbatim>\<open>warmup2[k]\<close> up to
  \<^verbatim>\<open>n_save[k]\<close> to the accumulator; the model returns these values in order.
\<close>

definition apply_kept_samples :: "sim \<Rightarrow> nat \<Rightarrow> nat \<Rightarrow> failure + double list" where
  "apply_kept_samples s k n =
     bindE (vec_at (samples s) k) (\<lambda>slst.
     bindE (vec_at slst n) (\<lambda>nv.
     bindE (vec_at (warmup2 s) k) (\<lambda>w.
     bindE (vec_at (n_save s) k) (\<lambda>sv.
       mapE (vec_at nv) [w ..< sv]))))"

text \<open>
  Modelled from the spec: the mean accumulator of \<^verbatim>\<open>boost::accumulators\<close>, which
  chains.cpp uses and does not define: the arithmetic mean of the values it was fed
  (spec 9), here \<open>mean\<close>.
\<close>

definition get_chain_mean :: "sim \<Rightarrow> nat \<Rightarrow> nat \<Rightarrow> failure + double" where
  "get_chain_mean s k n =
     bindE (validate_chain_idx s k) (\<lambda>_.
     bindE (validate_param_idx s n) (\<lambda>_.
     bindE (apply_kept_samples s k n) (\<lambda>acc. Inr (mean acc))))"

definition autocovariance_sim :: "sim \<Rightarrow> nat \<Rightarrow> nat \<Rightarrow> failure + double list" where
  "autocovariance_sim s k n =
     bindE (get_kept_samples s k n) (\<lambda>samples. Inr (autocovariance samples))"

text \<open>
  Lines 315-328 and 535-548: the kept counts \<^verbatim>\<open>ns_kept[i] -= ns_warmup2[i]\<close> and
  their minimum over the chains \<open>0 .. m - 1\<close>.
\<close>

fun kept_counts :: "nat list \<Rightarrow> nat list \<Rightarrow> failure + nat list" where
  "kept_counts [] ns_warmup2 = Inr []"
| "kept_counts (sv # ns_save) [] = Inl undefined_access"
| "kept_counts (sv # ns_save) (w # ns_warmup2) =
     bindE (kept_counts ns_save ns_warmup2) (\<lambda>ns_kept. Inr (uint_sub sv w # ns_kept))"

definition min_kept :: "nat list \<Rightarrow> nat \<Rightarrow> failure + nat" where
  "min_kept ns_kept m =
     bindE (vec_at ns_kept 0) (\<lambda>n0.
       foldl (\<lambda>acc chain. bindE acc (\<lambda>n_samples.
                 bindE (vec_at ns_kept chain) (\<lambda>nk. Inr (min n_samples nk))))
             (Inr n0) [1 ..< m])"

subsection \<open>Split R-hat on the simulation record\<close>

definition split_potential_scale_reduction :: "sim \<Rightarrow> nat \<Rightarrow> failure + double" where
  "split_potential_scale_reduction s n =
     bindE (validate_sim s) (\<lambda>_.
     let n_chains = num_chains s in
     bindE (kept_counts (n_save s) (warmup2 s)) (\<lambda>ns_kept.
     bindE (min_kept ns_kept n_chains) (\<lambda>n_samples0.
     let n_samples = make_even n_samples0 in
     bindE (mapE (\<lambda>chain. get_kept_samples s chain n) [0 ..< n_chains]) (\<lambda>kept.
     bindE (split_chain_moments n_samples kept) (\<lambda>(split_chain_mean, split_chain_var).
       Inr (srhat n_samples split_chain_mean split_chain_var))))))"

subsection \<open>Effective sample size\<close>

text \<open>The inner loops \<^verbatim>\<open>acov_t[chain] = acov[chain][t]\<close>.\<close>

definition acov_lag :: "double list list \<Rightarrow> nat \<Rightarrow> failure + double list" where
  "acov_lag acov t = mapE (\<lambda>acov_chain. vec_at acov_chain t) acov"

text \<open>\<^verbatim>\<open>1 - (mean_var - stan::math::mean(acov_t)) / var_plus\<close>.\<close>

definition rho_hat_of :: "double \<Rightarrow> double \<Rightarrow> double list \<Rightarrow> double" where
  "rho_hat_of mean_var var_plus acov_t = Fin 1 - (mean_var - mean acov_t) / var_plus"

text \<open>\<^verbatim>\<open>acov[chain][0]*n_kept_samples/(n_kept_samples-1)\<close>.\<close>

definition chain_var_of :: "double list \<Rightarrow> nat \<Rightarrow> failure + double" where
  "chain_var_of acov_chain n_kept_samples =
     bindE (vec_at acov_chain 0) (\<lambda>a0.
       Inr (a0 * of_uint n_kept_samples / of_uint (uint_sub n_kept_samples 1)))"

text \<open>
  \<^verbatim>\<open>var_plus = mean_var*(n_samples-1)/n_samples; if (m > 1) var_plus += variance(chain_mean)\<close>.
\<close>

definition var_plus_of :: "double \<Rightarrow> nat \<Rightarrow> nat \<Rightarrow> double list \<Rightarrow> double" where
  "var_plus_of mean_var n_samples m chain_mean =
     (let var_plus = mean_var * of_uint (uint_sub n_samples 1) / of_uint n_samples
      in if m > 1 then var_plus + variance chain_mean else var_plus)"

text \<open>\<^verbatim>\<open>ess = m*n_samples; ess /= (1 + 2 * stan::math::sum(rho_hat_t))\<close>.\<close>

definition ess_of :: "nat \<Rightarrow> nat \<Rightarrow> double list \<Rightarrow> double" where
  "ess_of m n_samples rho_hat_t =
     of_uint (uint_mul m n_samples) / (Fin 1 + Fin 2 * dsum rho_hat_t)"

subsubsection \<open>The simplified variant on a matrix\<close>

text \<open>
  The loop of lines 446-454, entered at lag \<open>t\<close> with the last \<^verbatim>\<open>rho_hat\<close> and the
  values pushed so far.
\<close>

function rho_hat_loop2 ::
  "double list list \<Rightarrow> double \<Rightarrow> double \<Rightarrow> nat \<Rightarrow> nat \<Rightarrow> double \<Rightarrow> double list
     \<Rightarrow> failure + double list" where
  "rho_hat_loop2 acov mean_var var_plus n_samples t rho_hat rho_hat_t =
     (if t < n_samples \<and> rho_hat \<ge> Fin 0
      then bindE (acov_lag acov t) (\<lambda>acov_t.
             let rho_hat' = rho_hat_of mean_var var_plus acov_t
             in rho_hat_loop2 acov mean_var var_plus n_samples (t + 1) rho_hat'
                  (if rho_hat' \<ge> Fin 0 then rho_hat_t @ [rho_hat'] else rho_hat_t))
      else Inr rho_hat_t)"
  by pat_completeness auto
termination
  by (relation "measure (\<lambda>(acov, mean_var, var_plus, n_samples, t, rho_hat, rho_hat_t). n_samples - t)")
     auto

declare rho_hat_loop2.simps [simp del]

text \<open>The quantities of lines 424-443, named as in the source.\<close>

definition acov2 :: "NumericMatrix \<Rightarrow> double list list" where
  "acov2 nm = map autocovariance (columns nm)"

definition chain_mean2 :: "NumericMatrix \<Rightarrow> double list" where
  "chain_mean2 nm = map mean (columns nm)"

definition chain_var2 :: "NumericMatrix \<Rightarrow> failure + double list" where
  "chain_var2 nm = mapE (\<lambda>acov_chain. chain_var_of acov_chain (nrow nm)) (acov2 nm)"

definition var_plus2 :: "NumericMatrix \<Rightarrow> double list \<Rightarrow> double" where
  "var_plus2 nm chain_var = var_plus_of (mean chain_var) (nrow nm) (ncol nm) (chain_mean2 nm)"

definition effective_sample_size2 :: "NumericMatrix \<Rightarrow> failure + double" where
  "effective_sample_size2 nm =
     (let m = ncol nm; n_samples = nrow nm in
      bindE (chain_var2 nm) (\<lambda>chain_var.
      let mean_var = mean chain_var; var_plus = var_plus2 nm chain_var in
      bindE (rho_hat_loop2 (acov2 nm) mean_var var_plus n_samples 1 (Fin 0) []) (\<lambda>rho_hat_t.
        Inr (if length rho_hat_t > 0 then ess_of m n_samples rho_hat_t
             else of_uint (uint_mul m n_samples)))))"

subsubsection \<open>The full variant on the simulation record\<close>

text \<open>
  Geyer's initial positive sequence, lines 360-374, entered at \<open>t\<close> with the current pair,
  the vector \<^verbatim>\<open>rho_hat_t\<close> and \<^verbatim>\<open>max_t\<close>; \<open>bound\<close> is \<^verbatim>\<open>n_samples - 2\<close>.
\<close>

function positive_loop ::
  "double list list \<Rightarrow> double \<Rightarrow> double \<Rightarrow> nat \<Rightarrow> nat \<Rightarrow> double \<Rightarrow> double \<Rightarrow> double list \<Rightarrow> nat
     \<Rightarrow> failure + (double list \<times> nat)" where
  "positive_loop acov mean_var var_plus bound t rho_hat_even rho_hat_odd rho_hat_t max_t =
     (if t < bound \<and> rho_hat_even + rho_hat_odd \<ge> Fin 0
      then bindE (acov_lag acov (t + 1)) (\<lambda>acov_t1.
           bindE (acov_lag acov (t + 2)) (\<lambda>acov_t2.
             let rho_hat_even' = rho_hat_of mean_var var_plus acov_t1;
                 rho_hat_odd' = rho_hat_of mean_var var_plus acov_t2
             in if rho_hat_even' + rho_hat_odd' \<ge> Fin 0
                then if t + 2 < length rho_hat_t
                     then positive_loop acov mean_var var_plus bound (t + 2)
                            rho_hat_even' rho_hat_odd'
                            (rho_hat_t[t + 1 := rho_hat_even', t + 2 := rho_hat_odd']) (t + 2)
                     else Inl undefined_access
                else positive_loop acov mean_var var_plus bound (t + 2)
                       rho_hat_even' rho_hat_odd' rho_hat_t (t + 2)))
      else Inr (rho_hat_t, max_t))"
  by pat_completeness auto
termination
  by (relation "measure (\<lambda>(acov, mean_var, var_plus, bound, t, e, od, rho_hat_t, max_t). bound - t)")
     auto

declare positive_loop.simps [simp del]

text \<open>
  Geyer's initial monotone sequence, lines 377-382, entered at \<open>t\<close>; the test
  \<^verbatim>\<open>t <= max_t - 2\<close> is on \<^verbatim>\<open>int\<close>.
\<close>

function monotone_loop :: "nat \<Rightarrow> nat \<Rightarrow> double list \<Rightarrow> failure + double list" where
  "monotone_loop max_t t rho_hat_t =
     (if t + 2 \<le> max_t
      then if t + 2 < length rho_hat_t \<and> 1 \<le> t
           then monotone_loop max_t (t + 2)
                  (if rho_hat_t ! (t + 1) + rho_hat_t ! (t + 2) > rho_hat_t ! (t - 1) + rho_hat_t ! t
                   then (let r = (rho_hat_t ! (t - 1) + rho_hat_t ! t) / Fin 2
                         in rho_hat_t[t + 1 := r, t + 2 := r])
                   else rho_hat_t)
           else Inl undefined_access
      else Inr rho_hat_t)"
  by pat_completeness auto
termination
  by (relation "measure (\<lambda>(max_t, t, rho_hat_t). max_t - t)") auto

declare monotone_loop.simps [simp del]

text \<open>Lines 331-353: the autocovariances, the chain moments and the first pair.\<close>

definition acov_sim :: "sim \<Rightarrow> nat \<Rightarrow> failure + double list list" where
  "acov_sim s n = mapE (\<lambda>chain. autocovariance_sim s chain n) [0 ..< num_chains s]"

definition chain_mean_sim :: "sim \<Rightarrow> nat \<Rightarrow> failure + double list" where
  "chain_mean_sim s n = mapE (\<lambda>chain. get_chain_mean s chain n) [0 ..< num_chains s]"

definition chain_var_sim :: "double list list \<Rightarrow> nat list \<Rightarrow> nat \<Rightarrow> failure + double list" where
  "chain_var_sim acov ns_kept m =
     mapE (\<lambda>chain. bindE (vec_at ns_kept chain) (\<lambda>n_kept_samples.
                    bindE (vec_at acov chain) (\<lambda>acov_chain.
                      chain_var_of acov_chain n_kept_samples)))
          [0 ..< m]"

text \<open>Lines 312-348: the common kept count, the autocovariances and the two variances.\<close>

definition ess_moments :: "sim \<Rightarrow> nat \<Rightarrow> failure + (nat \<times> double list list \<times> double \<times> double)" where
  "ess_moments s n =
     (let m = num_chains s in
      bindE (kept_counts (n_save s) (warmup2 s)) (\<lambda>ns_kept.
      bindE (min_kept ns_kept m) (\<lambda>n_samples.
      bindE (acov_sim s n) (\<lambda>acov.
      bindE (chain_mean_sim s n) (\<lambda>chain_mean.
      bindE (chain_var_sim acov ns_kept m) (\<lambda>chain_var.
      let mean_var = mean chain_var;
          var_plus = var_plus_of mean_var n_samples m chain_mean
      in Inr (n_samples, acov, mean_var, var_plus)))))))"

text \<open>
  Lines 349-374: \<^verbatim>\<open>rho_hat_t\<close> starts as \<open>n_samples\<close> zeros, receives the first
  \<^verbatim>\<open>rho_hat_odd\<close> at index 1, and goes through the initial positive sequence.
\<close>

definition positive_sequence ::
  "double list list \<Rightarrow> double \<Rightarrow> double \<Rightarrow> nat \<Rightarrow> failure + (double list \<times> nat)" where
  "positive_sequence acov mean_var var_plus n_samples =
     bindE (acov_lag acov 1) (\<lambda>acov_t.
     let rho_hat_even = Fin 1;
         rho_hat_odd = rho_hat_of mean_var var_plus acov_t
     in if 1 < n_samples
        then positive_loop acov mean_var var_plus (uint_sub n_samples 2) 1
               rho_hat_even rho_hat_odd
               ((replicate n_samples (Fin 0))[1 := rho_hat_odd]) 1
        else Inl undefined_access)"

definition effective_sample_size :: "sim \<Rightarrow> nat \<Rightarrow> failure + double" where
  "effective_sample_size s n =
     bindE (validate_sim s) (\<lambda>_.
     bindE (validate_param_idx s n) (\<lambda>_.
     bindE (ess_moments s n) (\<lambda>(n_samples, acov, mean_var, var_plus).
     bindE (positive_sequence acov mean_var var_plus n_samples) (\<lambda>(rho_hat_t, max_t).
     bindE (monotone_loop max_t 3 rho_hat_t) (\<lambda>rho_hat_t.
       Inr (ess_of (num_chains s) n_samples rho_hat_t))))))"

subsection \<open>Reference formulations\<close>

text \<open>
  A simulation record with every required element present and of the expected type, whose
  declared number of chains is the number of chains in \<open>samples\<close>.
\<close>

definition sim_of_chains :: "nat \<Rightarrow> nat list \<Rightarrow> nat list \<Rightarrow> double list list list \<Rightarrow> sim" where
  "sim_of_chains n_flat ns_save ns_warmup2 smp =
     \<lparr>names = snames, chains_type = INTSXP, samples_type = VECSXP, chains = length smp,
      n_flatnames = n_flat, n_save = ns_save, warmup2 = ns_warmup2, samples = smp\<rparr>"

text \<open>
  The split R-hat statistic of a given list of pairs of half chains: the formula of lines
  501-505 applied to the means and variances of the halves, in the order of the loop.
\<close>

definition srhat_of_halves :: "nat \<Rightarrow> (double list \<times> double list) list \<Rightarrow> double" where
  "srhat_of_halves n_samples halves =
     srhat n_samples (concat (map (\<lambda>(h1, h2). [mean h1, mean h2]) halves))
                     (concat (map (\<lambda>(h1, h2). [variance h1, variance h2]) halves))"






text \<open>Every pair of lags \<open>2 j, 2 j + 1\<close> with \<open>j \<ge> 1\<close> has a sum that is at least 0.\<close>

definition pairs_nonneg :: "double list \<Rightarrow> bool" where
  "pairs_nonneg rho_hat_t =
     (\<forall>j. 1 \<le> j \<and> 2 * j + 1 < length rho_hat_t
            \<longrightarrow> rho_hat_t ! (2 * j) + rho_hat_t ! (2 * j + 1) \<ge> Fin 0)"

text \<open>
  A well-formed request: the record passes \<^verbatim>\<open>validate_sim\<close>, the parameter index
  is below the number of parameters, there is at least one chain, the two count vectors have
  one entry per chain, and every chain holds, for the parameter, exactly the declared number
  of saved draws, of which at least two are kept after the warmup.
\<close>

definition well_formed :: "sim \<Rightarrow> nat \<Rightarrow> bool" where
  "well_formed s n =
     (validate_sim s = Inr () \<and> n < n_flatnames s \<and> 0 < chains s
      \<and> length (n_save s) = chains s \<and> length (warmup2 s) = chains s
      \<and> list_all (\<lambda>k. n < length (samples s ! k)
                       \<and> length (samples s ! k ! n) = n_save s ! k
                       \<and> warmup2 s ! k + 2 \<le> n_save s ! k
                       \<and> n_save s ! k < 4294967296)
                  [0 ..< chains s])"

text \<open>The kept draws of each chain: the saved draws after the first \<open>warmup2\<close> ones.\<close>

definition kept_draws :: "sim \<Rightarrow> nat \<Rightarrow> double list list" where
  "kept_draws s n = map (\<lambda>k. drop (warmup2 s ! k) (samples s ! k ! n)) [0 ..< chains s]"

text \<open>
  The per-chain variance estimates of spec 4.3, step 2: \<open>autocovariance[0] * n_k / (n_k - 1)\<close>
  for a chain of \<open>n_k\<close> kept draws.
\<close>

definition chain_vars :: "double list list \<Rightarrow> double list" where
  "chain_vars kept =
     map (\<lambda>c. autocovariance c ! 0 * of_uint (length c) / of_uint (length c - 1)) kept"

text \<open>
  The simulation record that holds the columns of a matrix as the chains of its single
  parameter, with no warmup.
\<close>

definition sim_of_matrix :: "NumericMatrix \<Rightarrow> sim" where
  "sim_of_matrix nm =
     sim_of_chains 1 (replicate (ncol nm) (nrow nm)) (replicate (ncol nm) 0)
       (map (\<lambda>c. [c]) (columns nm))"

section \<open>Properties\<close>

subsection \<open>Evaluating the statistics\<close>

lemmas stat_defs =
  var_between_def var_within_def variance_def mean_def dsum_def of_uint_def minus_double_def

subsection \<open>Basic rules\<close>

lemma bindE_simps [simp]: "bindE (Inl e) f = Inl e" "bindE (Inr x) f = f x"
  by (simp_all add: bindE_def)

lemma minus_Fin [simp]: "Fin a - Fin b = Fin (a - b)"
  by (simp add: minus_double_def)

subsection \<open>Claim C3\<close>

text \<open>
  Claim C3. For the single chain \<open>[1,2,3,4,5,6,7,8]\<close> (one column, eight rows) split R-hat
  works on the halves \<open>[1,2,3,4]\<close> and \<open>[5,6,7,8]\<close>; the half means are \<open>2.5\<close> and
  \<open>6.5\<close>, both unbiased half variances are \<open>5/3\<close>, so \<open>var_within = 5/3\<close> and
  \<open>var_between = 32\<close>, and the result is \<open>sqrt ((32 / (5/3) + 3) / 4) = sqrt 5.55\<close>,
  which lies between \<open>2.355\<close> and \<open>2.357\<close>.
\<close>

theorem split_rhat_chain_1_to_8:
  "split_chain (make_even 8) (map Fin [1, 2, 3, 4, 5, 6, 7, 8])
     = Inr (map Fin [1, 2, 3, 4], map Fin [5, 6, 7, 8])
   \<and> split_chain_moments (make_even 8) [map Fin [1, 2, 3, 4, 5, 6, 7, 8]]
     = Inr ([Fin (5 / 2), Fin (13 / 2)], [Fin (5 / 3), Fin (5 / 3)])
   \<and> var_within [Fin (5 / 3), Fin (5 / 3)] = Fin (5 / 3)
   \<and> var_between (make_even 8) [Fin (5 / 2), Fin (13 / 2)] = Fin 32
   \<and> split_potential_scale_reduction2 \<lparr>nrow = 8, columns = [map Fin [1, 2, 3, 4, 5, 6, 7, 8]]\<rparr>
     = Inr (Fin (sqrt ((32 / (5 / 3) + 3) / 4)))
   \<and> (32 / (5 / 3) + 3) / 4 = (555 / 100 :: real)
   \<and> 2355 / 1000 < sqrt (555 / 100) \<and> sqrt (555 / 100) < 2357 / 1000"
proof -
  have a: "split_chain (make_even 8) (map Fin [1, 2, 3, 4, 5, 6, 7, 8])
     = Inr (map Fin [1, 2, 3, 4], map Fin [5, 6, 7, 8])"
    by (simp add: make_even_def split_chain_def)
  have b: "split_chain_moments (make_even 8) [map Fin [1, 2, 3, 4, 5, 6, 7, 8]]
     = Inr ([Fin (5 / 2), Fin (13 / 2)], [Fin (5 / 3), Fin (5 / 3)])"
    by (simp add: make_even_def split_chain_def bindE_def stat_defs)
  have c: "var_within [Fin (5 / 3), Fin (5 / 3)] = Fin (5 / 3)"
    by (simp add: stat_defs)
  have d: "var_between (make_even 8) [Fin (5 / 2), Fin (13 / 2)] = Fin 32"
    by (simp add: make_even_def stat_defs)
  have e: "split_potential_scale_reduction2
             \<lparr>nrow = 8, columns = [map Fin [1, 2, 3, 4, 5, 6, 7, 8]]\<rparr>
     = Inr (Fin (sqrt ((32 / (5 / 3) + 3) / 4)))"
    by (simp add: split_potential_scale_reduction2_def make_even_def split_chain_def
          bindE_def srhat_def stat_defs)
  have f: "(32 / (5 / 3) + 3) / 4 = (555 / 100 :: real)" by simp
  have g: "2355 / 1000 < sqrt (555 / 100)"
    by (rule real_less_rsqrt) (simp add: power2_eq_square)
  have h: "sqrt (555 / 100) < 2357 / 1000"
    by (rule real_less_lsqrt) (simp_all add: power2_eq_square)
  from a b c d e f g h show ?thesis by blast
qed

subsection \<open>Evaluating the entry points\<close>

lemma validate_sim_of_chains: "validate_sim (sim_of_chains nf sv w smp) = Inr ()"
  by (simp add: validate_sim_def sim_of_chains_def)

lemmas sim_eval = split_potential_scale_reduction_def effective_sample_size_def
  num_chains_def num_params_def min_kept_def vec_at_def get_kept_samples_def
  validate_param_idx_def validate_chain_idx_def apply_kept_samples_def get_chain_mean_def
  autocovariance_sim_def uint_sub_def uint_mul_def make_even_def split_chain_def srhat_def

lemma mapE_all_Inr: "\<forall>x \<in> set xs. f x = Inr (g x) \<Longrightarrow> mapE f xs = Inr (map g xs)"
  by (induction xs) simp_all

lemma split_chain_moments_halves:
  "split_chain_moments n cs =
     bindE (mapE (split_chain n) cs) (\<lambda>hs.
       Inr (concat (map (\<lambda>(h1, h2). [mean h1, mean h2]) hs),
            concat (map (\<lambda>(h1, h2). [variance h1, variance h2]) hs)))"
proof (induction cs)
  case Nil
  then show ?case by simp
next
  case (Cons c cs)
  show ?case
  proof (cases "split_chain n c")
    case (Inl e)
    then show ?thesis by simp
  next
    case (Inr h)
    then show ?thesis
      by (cases h; cases "mapE (split_chain n) cs") (simp_all add: Cons.IH)
  qed
qed

lemma srhat_via_halves:
  assumes "\<forall>c \<in> set cs. n div 2 \<le> length c"
  shows "bindE (split_chain_moments n cs) (\<lambda>(mu, v). Inr (srhat n mu v))
       = Inr (srhat_of_halves n (map (\<lambda>c. (take (n div 2) c, drop (length c - n div 2) c)) cs))"
proof -
  have "mapE (split_chain n) cs = Inr (map (\<lambda>c. (take (n div 2) c, drop (length c - n div 2) c)) cs)"
    by (rule mapE_all_Inr) (use assms in \<open>simp add: split_chain_def\<close>)
  then show ?thesis
    by (simp add: split_chain_moments_halves srhat_of_halves_def)
qed

lemma make_even_odd: "odd n \<Longrightarrow> make_even n = n - 1 \<and> (n - 1) div 2 = n div 2"
  unfolding make_even_def by presburger

subsection \<open>Claim C1\<close>

text \<open>
  Claim C1, as amended. When the common kept count is odd (and at least 5, so that every
  half has two draws, with at least one chain), both split R-hat entry points decrement it
  by one and work, for every chain, on the first \<open>n_samples div 2\<close> and the last
  \<open>n_samples div 2\<close> of its draws. For a chain whose length is the odd count
  itself, it is the middle draw that is left out: a chain of length 7 is split into the
  draws at indices 0..2 and 4..6.
\<close>

theorem split_rhat_odd_halves:
  "(rectangular nm \<and> odd (nrow nm) \<and> 5 \<le> nrow nm \<and> columns nm \<noteq> [] \<longrightarrow>
      split_potential_scale_reduction2 nm
        = Inr (srhat_of_halves (nrow nm - 1)
                 (map (\<lambda>c. (take (nrow nm div 2) c, drop (nrow nm div 2 + 1) c)) (columns nm))))
   \<and> (validate_sim s = Inr () \<and> kept_counts (n_save s) (warmup2 s) = Inr ns_kept
        \<and> min_kept ns_kept (num_chains s) = Inr n_samples \<and> odd n_samples \<and> 5 \<le> n_samples
        \<and> mapE (\<lambda>chain. get_kept_samples s chain n) [0 ..< num_chains s] = Inr kept
        \<and> kept \<noteq> [] \<and> (\<forall>c \<in> set kept. n_samples div 2 \<le> length c) \<longrightarrow>
      split_potential_scale_reduction s n
        = Inr (srhat_of_halves (n_samples - 1)
                 (map (\<lambda>c. (take (n_samples div 2) c, drop (length c - n_samples div 2) c)) kept)))
   \<and> split_chain (make_even 7) [x0, x1, x2, x3, x4, x5, x6] = Inr ([x0, x1, x2], [x4, x5, x6])"
proof (intro conjI impI)
  assume a: "rectangular nm \<and> odd (nrow nm) \<and> 5 \<le> nrow nm \<and> columns nm \<noteq> []"
  then have len: "\<forall>c \<in> set (columns nm). length c = nrow nm"
    by (simp add: rectangular_def list_all_iff)
  from a have me: "make_even (nrow nm) = nrow nm - 1" "(nrow nm - 1) div 2 = nrow nm div 2"
    using make_even_odd by blast+
  from a have "odd (nrow nm)" by blast
  then have "nrow nm - nrow nm div 2 = nrow nm div 2 + 1"
    by presburger
  with len have eq: "map (\<lambda>c. (take (nrow nm div 2) c, drop (length c - nrow nm div 2) c)) (columns nm)
      = map (\<lambda>c. (take (nrow nm div 2) c, drop (nrow nm div 2 + 1) c)) (columns nm)"
    by simp
  have "(nrow nm - 1) div 2 \<le> nrow nm" by arith
  with len have "\<forall>c \<in> set (columns nm). (nrow nm - 1) div 2 \<le> length c"
    by simp
  then have "bindE (split_chain_moments (nrow nm - 1) (columns nm))
                 (\<lambda>(mu, v). Inr (srhat (nrow nm - 1) mu v))
       = Inr (srhat_of_halves (nrow nm - 1)
               (map (\<lambda>c. (take ((nrow nm - 1) div 2) c, drop (length c - (nrow nm - 1) div 2) c))
                  (columns nm)))"
    by (rule srhat_via_halves)
  then show "split_potential_scale_reduction2 nm
        = Inr (srhat_of_halves (nrow nm - 1)
                 (map (\<lambda>c. (take (nrow nm div 2) c, drop (nrow nm div 2 + 1) c)) (columns nm)))"
    unfolding split_potential_scale_reduction2_def Let_def me eq .
next
  assume a: "validate_sim s = Inr () \<and> kept_counts (n_save s) (warmup2 s) = Inr ns_kept
        \<and> min_kept ns_kept (num_chains s) = Inr n_samples \<and> odd n_samples \<and> 5 \<le> n_samples
        \<and> mapE (\<lambda>chain. get_kept_samples s chain n) [0 ..< num_chains s] = Inr kept
        \<and> kept \<noteq> [] \<and> (\<forall>c \<in> set kept. n_samples div 2 \<le> length c)"
  then have me: "make_even n_samples = n_samples - 1" "(n_samples - 1) div 2 = n_samples div 2"
    using make_even_odd by blast+
  from a have "\<forall>c \<in> set kept. (n_samples - 1) div 2 \<le> length c"
    unfolding me by blast
  then have "bindE (split_chain_moments (n_samples - 1) kept)
                 (\<lambda>(mu, v). Inr (srhat (n_samples - 1) mu v))
       = Inr (srhat_of_halves (n_samples - 1)
               (map (\<lambda>c. (take ((n_samples - 1) div 2) c, drop (length c - (n_samples - 1) div 2) c))
                  kept))"
    by (rule srhat_via_halves)
  with a show "split_potential_scale_reduction s n
        = Inr (srhat_of_halves (n_samples - 1)
                 (map (\<lambda>c. (take (n_samples div 2) c, drop (length c - n_samples div 2) c)) kept))"
    unfolding split_potential_scale_reduction_def Let_def by (simp add: me del: One_nat_def)
next
  show "split_chain (make_even 7) [x0, x1, x2, x3, x4, x5, x6] = Inr ([x0, x1, x2], [x4, x5, x6])"
    by (simp add: make_even_def split_chain_def)
qed

lemma kept7: "mapE (\<lambda>chain. get_kept_samples (sim_of_chains 1 [7] [0] [[map Fin [1, 2, 3, 4, 5, 6, 7]]]) chain 0)
      [0 ..< num_chains (sim_of_chains 1 [7] [0] [[map Fin [1, 2, 3, 4, 5, 6, 7]]])]
     = Inr [map Fin [1, 2, 3, 4, 5, 6, 7]]"
  by (simp add: sim_of_chains_def num_chains_def get_kept_samples_def vec_at_def)

theorem split_rhat_odd_halves_witness:
  "split_potential_scale_reduction2 \<lparr>nrow = 7, columns = [map Fin [1, 2, 3, 4, 5, 6, 7]]\<rparr>
     = Inr (srhat_of_halves 6 [(map Fin [1, 2, 3], map Fin [5, 6, 7])])
   \<and> split_potential_scale_reduction (sim_of_chains 1 [7] [0] [[map Fin [1, 2, 3, 4, 5, 6, 7]]]) 0
     = Inr (srhat_of_halves 6 [(map Fin [1, 2, 3], map Fin [5, 6, 7])])"
proof -
  let ?s = "sim_of_chains 1 [7] [0] [[map Fin [1, 2, 3, 4, 5, 6, 7]]]"
  let ?nm = "\<lparr>nrow = 7, columns = [map Fin [1, 2, 3, 4, 5, 6, 7]]\<rparr>"
  note t = split_rhat_odd_halves [of ?nm ?s "[7]" 7 0 "[map Fin [1, 2, 3, 4, 5, 6, 7]]"]
  have h1: "rectangular ?nm \<and> odd (nrow ?nm) \<and> 5 \<le> nrow ?nm \<and> columns ?nm \<noteq> []"
    by (simp add: rectangular_def)
  have h2: "validate_sim ?s = Inr ()" by (rule validate_sim_of_chains)
  have h3: "kept_counts (n_save ?s) (warmup2 ?s) = Inr [7]"
    by (simp add: sim_of_chains_def uint_sub_def)
  have h4: "min_kept [7] (num_chains ?s) = Inr 7"
    by (simp add: sim_of_chains_def num_chains_def min_kept_def vec_at_def)
  from t h1 have a: "split_potential_scale_reduction2 ?nm
     = Inr (srhat_of_halves 6 [(map Fin [1, 2, 3], map Fin [5, 6, 7])])"
    by simp
  from t h2 h3 h4 kept7 have b: "split_potential_scale_reduction ?s 0
     = Inr (srhat_of_halves 6 [(map Fin [1, 2, 3], map Fin [5, 6, 7])])"
    by simp
  from a b show ?thesis by blast
qed

text \<open>
  Claim C1 as stated fails: for a single chain of length 7 the second half is not the draws
  at indices 3..5, and the statistic is not the one of the halves 0..2 and 3..5.
\<close>

theorem split_rhat_length_7_keeps_last:
  "split_chain (make_even 7) (map Fin [1, 2, 3, 4, 5, 6, 7]) \<noteq> Inr (map Fin [1, 2, 3], map Fin [4, 5, 6])
   \<and> split_potential_scale_reduction2 \<lparr>nrow = 7, columns = [map Fin [1, 2, 3, 4, 5, 6, 7]]\<rparr>
       \<noteq> Inr (srhat_of_halves 6 [(map Fin [1, 2, 3], map Fin [4, 5, 6])])
   \<and> split_potential_scale_reduction (sim_of_chains 1 [7] [0] [[map Fin [1, 2, 3, 4, 5, 6, 7]]]) 0
       \<noteq> Inr (srhat_of_halves 6 [(map Fin [1, 2, 3], map Fin [4, 5, 6])])"
proof -
  have a: "split_chain (make_even 7) (map Fin [1, 2, 3, 4, 5, 6, 7])
             = Inr (map Fin [1, 2, 3], map Fin [5, 6, 7])"
    by (simp add: make_even_def split_chain_def)
  have b: "split_potential_scale_reduction2 \<lparr>nrow = 7, columns = [map Fin [1, 2, 3, 4, 5, 6, 7]]\<rparr>
             = Inr (Fin (sqrt (26 / 3)))"
    by (simp add: split_potential_scale_reduction2_def sim_eval stat_defs)
  have c: "split_potential_scale_reduction (sim_of_chains 1 [7] [0] [[map Fin [1, 2, 3, 4, 5, 6, 7]]]) 0
             = Inr (Fin (sqrt (26 / 3)))"
    by (simp add: sim_eval validate_sim_of_chains) (simp add: sim_of_chains_def sim_eval stat_defs)
  have d: "srhat_of_halves 6 [(map Fin [1, 2, 3], map Fin [4, 5, 6])] = Fin (sqrt (31 / 6))"
    by (simp add: srhat_of_halves_def srhat_def stat_defs)
  show ?thesis unfolding a b c d by simp
qed

subsection \<open>Claim C2\<close>

lemma quotient_by_zero:
  "dsqrt ((x / Fin 0 + of_uint h - Fin 1) / of_uint h) = NaN
   \<or> dsqrt ((x / Fin 0 + of_uint h - Fin 1) / of_uint h) = PInf"
  by (cases x) (simp_all add: of_uint_def minus_double_def)

lemma halves_moments:
  "concat (map (\<lambda>(h1, h2). [f h1, f h2]) (map (\<lambda>c. (take h c, drop (length c - h) c)) cs))
     = concat (map (\<lambda>c. [f (take h c), f (drop (length c - h) c)]) cs)"
  by (simp add: comp_def)

lemma srhat_explicit:
  assumes "\<forall>c \<in> set cs. n div 2 \<le> length c"
  shows "bindE (split_chain_moments n cs) (\<lambda>(mu, v). Inr (srhat n mu v))
       = Inr (dsqrt ((of_uint (n div 2)
                        * variance (concat (map (\<lambda>c. [mean (take (n div 2) c),
                                                         mean (drop (length c - n div 2) c)]) cs))
                      / mean (concat (map (\<lambda>c. [variance (take (n div 2) c),
                                                    variance (drop (length c - n div 2) c)]) cs))
                      + of_uint (n div 2) - Fin 1)
                     / of_uint (n div 2)))"
proof -
  have "srhat_of_halves n (map (\<lambda>c. (take (n div 2) c, drop (length c - n div 2) c)) cs)
      = dsqrt ((of_uint (n div 2)
                        * variance (concat (map (\<lambda>c. [mean (take (n div 2) c),
                                                         mean (drop (length c - n div 2) c)]) cs))
                      / mean (concat (map (\<lambda>c. [variance (take (n div 2) c),
                                                    variance (drop (length c - n div 2) c)]) cs))
                      + of_uint (n div 2) - Fin 1)
                     / of_uint (n div 2))"
    unfolding srhat_of_halves_def halves_moments srhat_def var_between_def var_within_def ..
  with srhat_via_halves [OF assms] show ?thesis by (simp only:)
qed


text \<open>
  Claim C2, as amended. Split R-hat makes no test of the variances and has no failure for a
  degenerate variance: on every rectangular matrix, and on every record whose kept draws
  can be read, it returns \<open>sqrt ((var_between / var_within + n/2 - 1) / (n/2))\<close> as an
  ordinary result, whatever the value of \<open>var_within\<close>. Whenever \<open>var_within\<close> is
  computed as zero, as it is for the constant chain \<open>5, 5, 5, 5\<close>, the quotient by it, a
  NaN or an infinity, makes the returned result NaN or \<open>+Infinity\<close>.
\<close>

theorem split_rhat_zero_variance_unchecked:
  "(rectangular nm \<longrightarrow>
      (let h = make_even (nrow nm) div 2;
           split_chain_mean =
             concat (map (\<lambda>c. [mean (take h c), mean (drop (length c - h) c)]) (columns nm));
           split_chain_var =
             concat (map (\<lambda>c. [variance (take h c), variance (drop (length c - h) c)])
                       (columns nm));
           var_between = of_uint h * variance split_chain_mean;
           var_within = mean split_chain_var
       in split_potential_scale_reduction2 nm
            = Inr (dsqrt ((var_between / var_within + of_uint h - Fin 1) / of_uint h))
          \<and> (var_within = Fin 0 \<longrightarrow>
               split_potential_scale_reduction2 nm = Inr NaN
               \<or> split_potential_scale_reduction2 nm = Inr PInf)))
   \<and> (validate_sim s = Inr () \<and> kept_counts (n_save s) (warmup2 s) = Inr ns_kept
        \<and> min_kept ns_kept (num_chains s) = Inr n_samples
        \<and> mapE (\<lambda>chain. get_kept_samples s chain n) [0 ..< num_chains s] = Inr kept
        \<and> (\<forall>c \<in> set kept. n_samples div 2 \<le> length c) \<longrightarrow>
      (let h = make_even n_samples div 2;
           split_chain_mean =
             concat (map (\<lambda>c. [mean (take h c), mean (drop (length c - h) c)]) kept);
           split_chain_var =
             concat (map (\<lambda>c. [variance (take h c), variance (drop (length c - h) c)]) kept);
           var_between = of_uint h * variance split_chain_mean;
           var_within = mean split_chain_var
       in split_potential_scale_reduction s n
            = Inr (dsqrt ((var_between / var_within + of_uint h - Fin 1) / of_uint h))
          \<and> (var_within = Fin 0 \<longrightarrow>
               split_potential_scale_reduction s n = Inr NaN
               \<or> split_potential_scale_reduction s n = Inr PInf)))"
proof (intro conjI impI)
  assume r: "rectangular nm"
  let ?n = "make_even (nrow nm)"
  have "?n div 2 \<le> nrow nm" unfolding make_even_def by presburger
  with r have l: "\<forall>c \<in> set (columns nm). ?n div 2 \<le> length c"
    by (simp add: rectangular_def list_all_iff)
  have e: "split_potential_scale_reduction2 nm
       = Inr (dsqrt ((of_uint (?n div 2)
                        * variance (concat (map (\<lambda>c. [mean (take (?n div 2) c),
                                                         mean (drop (length c - ?n div 2) c)])
                                              (columns nm)))
                      / mean (concat (map (\<lambda>c. [variance (take (?n div 2) c),
                                                    variance (drop (length c - ?n div 2) c)])
                                        (columns nm)))
                      + of_uint (?n div 2) - Fin 1)
                     / of_uint (?n div 2)))"
    unfolding split_potential_scale_reduction2_def Let_def by (rule srhat_explicit [OF l])
  show "let h = make_even (nrow nm) div 2;
           split_chain_mean =
             concat (map (\<lambda>c. [mean (take h c), mean (drop (length c - h) c)]) (columns nm));
           split_chain_var =
             concat (map (\<lambda>c. [variance (take h c), variance (drop (length c - h) c)])
                       (columns nm));
           var_between = of_uint h * variance split_chain_mean;
           var_within = mean split_chain_var
       in split_potential_scale_reduction2 nm
            = Inr (dsqrt ((var_between / var_within + of_uint h - Fin 1) / of_uint h))
          \<and> (var_within = Fin 0 \<longrightarrow>
               split_potential_scale_reduction2 nm = Inr NaN
               \<or> split_potential_scale_reduction2 nm = Inr PInf)"
    unfolding Let_def
  proof (intro conjI impI)
    show "split_potential_scale_reduction2 nm
       = Inr (dsqrt ((of_uint (?n div 2)
                        * variance (concat (map (\<lambda>c. [mean (take (?n div 2) c),
                                                         mean (drop (length c - ?n div 2) c)])
                                              (columns nm)))
                      / mean (concat (map (\<lambda>c. [variance (take (?n div 2) c),
                                                    variance (drop (length c - ?n div 2) c)])
                                        (columns nm)))
                      + of_uint (?n div 2) - Fin 1)
                     / of_uint (?n div 2)))" by (fact e)
  next
    assume z: "mean (concat (map (\<lambda>c. [variance (take (?n div 2) c),
                                          variance (drop (length c - ?n div 2) c)])
                              (columns nm))) = Fin 0"
    from quotient_by_zero show "split_potential_scale_reduction2 nm = Inr NaN
               \<or> split_potential_scale_reduction2 nm = Inr PInf"
      unfolding e z by simp
  qed
next
  assume a: "validate_sim s = Inr () \<and> kept_counts (n_save s) (warmup2 s) = Inr ns_kept
        \<and> min_kept ns_kept (num_chains s) = Inr n_samples
        \<and> mapE (\<lambda>chain. get_kept_samples s chain n) [0 ..< num_chains s] = Inr kept
        \<and> (\<forall>c \<in> set kept. n_samples div 2 \<le> length c)"
  let ?n = "make_even n_samples"
  have "?n div 2 = n_samples div 2" unfolding make_even_def by presburger
  with a have l: "\<forall>c \<in> set kept. ?n div 2 \<le> length c" by simp
  from a have e: "split_potential_scale_reduction s n
       = Inr (dsqrt ((of_uint (?n div 2)
                        * variance (concat (map (\<lambda>c. [mean (take (?n div 2) c),
                                                         mean (drop (length c - ?n div 2) c)])
                                              kept))
                      / mean (concat (map (\<lambda>c. [variance (take (?n div 2) c),
                                                    variance (drop (length c - ?n div 2) c)])
                                        kept))
                      + of_uint (?n div 2) - Fin 1)
                     / of_uint (?n div 2)))"
    unfolding split_potential_scale_reduction_def Let_def
    by (simp only: bindE_simps srhat_explicit [OF l])
  show "let h = make_even n_samples div 2;
           split_chain_mean =
             concat (map (\<lambda>c. [mean (take h c), mean (drop (length c - h) c)]) kept);
           split_chain_var =
             concat (map (\<lambda>c. [variance (take h c), variance (drop (length c - h) c)]) kept);
           var_between = of_uint h * variance split_chain_mean;
           var_within = mean split_chain_var
       in split_potential_scale_reduction s n
            = Inr (dsqrt ((var_between / var_within + of_uint h - Fin 1) / of_uint h))
          \<and> (var_within = Fin 0 \<longrightarrow>
               split_potential_scale_reduction s n = Inr NaN
               \<or> split_potential_scale_reduction s n = Inr PInf)"
    unfolding Let_def
  proof (intro conjI impI)
    show "split_potential_scale_reduction s n
       = Inr (dsqrt ((of_uint (?n div 2)
                        * variance (concat (map (\<lambda>c. [mean (take (?n div 2) c),
                                                         mean (drop (length c - ?n div 2) c)])
                                              kept))
                      / mean (concat (map (\<lambda>c. [variance (take (?n div 2) c),
                                                    variance (drop (length c - ?n div 2) c)])
                                        kept))
                      + of_uint (?n div 2) - Fin 1)
                     / of_uint (?n div 2)))" by (fact e)
  next
    assume z: "mean (concat (map (\<lambda>c. [variance (take (?n div 2) c),
                                          variance (drop (length c - ?n div 2) c)])
                              kept)) = Fin 0"
    from quotient_by_zero show "split_potential_scale_reduction s n = Inr NaN
               \<or> split_potential_scale_reduction s n = Inr PInf"
      unfolding e z by simp
  qed
qed

text \<open>
  Claim C2 as stated fails: on a single constant chain both entry points return NaN as an
  ordinary result.
\<close>

theorem constant_chain_yields_nan:
  "split_potential_scale_reduction2 \<lparr>nrow = 4, columns = [map Fin [5, 5, 5, 5]]\<rparr> = Inr NaN
   \<and> split_potential_scale_reduction (sim_of_chains 1 [4] [0] [[map Fin [5, 5, 5, 5]]]) 0 = Inr NaN"
proof -
  have a: "split_potential_scale_reduction2 \<lparr>nrow = 4, columns = [map Fin [5, 5, 5, 5]]\<rparr> = Inr NaN"
    by (simp add: split_potential_scale_reduction2_def sim_eval stat_defs)
  have b: "split_potential_scale_reduction (sim_of_chains 1 [4] [0] [[map Fin [5, 5, 5, 5]]]) 0 = Inr NaN"
    by (simp add: sim_eval validate_sim_of_chains) (simp add: sim_of_chains_def sim_eval stat_defs)
  from a b show ?thesis ..
qed

theorem split_rhat_zero_variance_unchecked_witness:
  "split_potential_scale_reduction2
       \<lparr>nrow = 4, columns = [map Fin [5, 5, 5, 5], map Fin [6, 6, 6, 6]]\<rparr> = Inr PInf
   \<and> (split_potential_scale_reduction
         (sim_of_chains 1 [5] [1] [[map Fin [0, 5, 5, 5, 5]]]) 0 = Inr NaN
      \<or> split_potential_scale_reduction
         (sim_of_chains 1 [5] [1] [[map Fin [0, 5, 5, 5, 5]]]) 0 = Inr PInf)"
proof -
  let ?nm = "\<lparr>nrow = 4, columns = [map Fin [5, 5, 5, 5], map Fin [6, 6, 6, 6]]\<rparr>"
  let ?s = "sim_of_chains 1 [5] [1] [[map Fin [0, 5, 5, 5, 5]]]"
  note t = split_rhat_zero_variance_unchecked [of ?nm ?s "[4]" 4 0 "[map Fin [5, 5, 5, 5]]"]
  have h1: "rectangular ?nm" by (simp add: rectangular_def)
  have h2: "validate_sim ?s = Inr ()" by (rule validate_sim_of_chains)
  have h3: "kept_counts (n_save ?s) (warmup2 ?s) = Inr [4]"
    by (simp add: sim_of_chains_def uint_sub_def)
  have h4: "min_kept [4] (num_chains ?s) = Inr 4"
    by (simp add: sim_of_chains_def num_chains_def min_kept_def vec_at_def)
  have h5: "mapE (\<lambda>chain. get_kept_samples ?s chain 0) [0 ..< num_chains ?s]
             = Inr [map Fin [5, 5, 5, 5]]"
    by (simp add: sim_of_chains_def num_chains_def get_kept_samples_def vec_at_def)
  have h6: "\<forall>c \<in> set [map Fin [5, 5, 5, 5 :: real]]. (4 :: nat) div 2 \<le> length c" by simp
  from t h1 have a: "split_potential_scale_reduction2 ?nm = Inr PInf"
    by (simp add: Let_def make_even_def stat_defs)
  from t h2 h3 h4 h5 h6 have b: "split_potential_scale_reduction ?s 0 = Inr NaN
    \<or> split_potential_scale_reduction ?s 0 = Inr PInf"
    by (simp add: Let_def make_even_def stat_defs)
  from a b show ?thesis ..
qed


subsection \<open>Claim C7\<close>

text \<open>
  \<^verbatim>\<open>effective_sample_size\<close> rejects a parameter index that is not below the number
  of parameters, once the record has passed \<^verbatim>\<open>validate_sim\<close>.
\<close>

lemma ess_param_idx:
  "validate_sim s = Inr () \<Longrightarrow> n_flatnames s \<le> n \<Longrightarrow> effective_sample_size s n = Inl out_of_range"
  by (simp add: effective_sample_size_def validate_param_idx_def num_params_def)

text \<open>
  Claim C7 at the parameter index 1 of a record with one parameter:
  \<^verbatim>\<open>effective_sample_size\<close> signals \<open>out_of_range\<close>, whereas
  \<^verbatim>\<open>split_potential_scale_reduction\<close>, which never calls
  \<^verbatim>\<open>validate_param_idx\<close>, indexes the chain's list of parameters with it: outside the
  list when the chain holds one vector, and returning the statistic of the second vector
  when the chain holds two.
\<close>

theorem split_rhat_misses_param_check:
  "effective_sample_size (sim_of_chains 1 [4] [0] [[map Fin [1, 3, 2, 4]]]) 1 = Inl out_of_range
   \<and> split_potential_scale_reduction (sim_of_chains 1 [4] [0] [[map Fin [1, 3, 2, 4]]]) 1
       = Inl undefined_access
   \<and> effective_sample_size (sim_of_chains 1 [4] [0] [[map Fin [9, 8, 7, 6], map Fin [1, 3, 2, 4]]]) 1
       = Inl out_of_range
   \<and> split_potential_scale_reduction
        (sim_of_chains 1 [4] [0] [[map Fin [9, 8, 7, 6], map Fin [1, 3, 2, 4]]]) 1
       = Inr (Fin (sqrt (3 / 4)))"
proof -
  have a: "effective_sample_size (sim_of_chains nf sv w smp) 1 = Inl out_of_range" if "nf = 1" for nf sv w smp
    using that by (intro ess_param_idx validate_sim_of_chains) (simp add: sim_of_chains_def)
  have b: "split_potential_scale_reduction (sim_of_chains 1 [4] [0] [[map Fin [1, 3, 2, 4]]]) 1
       = Inl undefined_access"
    by (simp add: sim_eval validate_sim_of_chains) (simp add: sim_of_chains_def sim_eval)
  have c: "split_potential_scale_reduction
        (sim_of_chains 1 [4] [0] [[map Fin [9, 8, 7, 6], map Fin [1, 3, 2, 4]]]) 1
       = Inr (Fin (sqrt (3 / 4)))"
    by (simp add: sim_eval validate_sim_of_chains) (simp add: sim_of_chains_def sim_eval stat_defs)
  from a b c show ?thesis by simp
qed

subsection \<open>Claim C8\<close>

text \<open>
  Claim C8 as stated fails: a record that declares four saved draws for a chain holding
  eight passes \<^verbatim>\<open>validate_sim\<close>, \<^verbatim>\<open>get_kept_samples\<close> extracts all eight draws
  without a signal, and split R-hat returns a value.
\<close>

theorem saved_count_mismatch_not_signalled:
  "validate_sim (sim_of_chains 1 [4] [0] [[map Fin [1, 2, 4, 3, 5, 7, 6, 9]]]) = Inr ()
   \<and> get_kept_samples (sim_of_chains 1 [4] [0] [[map Fin [1, 2, 4, 3, 5, 7, 6, 9]]]) 0 0
       = Inr (map Fin [1, 2, 4, 3, 5, 7, 6, 9])
   \<and> split_potential_scale_reduction (sim_of_chains 1 [4] [0] [[map Fin [1, 2, 4, 3, 5, 7, 6, 9]]]) 0
       = Inr (Fin (sqrt (77 / 10)))"
proof -
  have b: "get_kept_samples (sim_of_chains 1 [4] [0] [[map Fin [1, 2, 4, 3, 5, 7, 6, 9]]]) 0 0
       = Inr (map Fin [1, 2, 4, 3, 5, 7, 6, 9])"
    by (simp add: sim_of_chains_def get_kept_samples_def vec_at_def)
  have c: "split_potential_scale_reduction (sim_of_chains 1 [4] [0] [[map Fin [1, 2, 4, 3, 5, 7, 6, 9]]]) 0
       = Inr (Fin (sqrt (77 / 10)))"
    by (simp add: sim_eval validate_sim_of_chains) (simp add: sim_of_chains_def sim_eval stat_defs)
  from validate_sim_of_chains b c show ?thesis by simp
qed

text \<open>
  Claim C8, as amended. A record whose declared number of chains differs from the number of
  chains in \<open>samples\<close> is rejected by \<^verbatim>\<open>validate_sim\<close> with a
  \<open>domain_error\<close>, before either diagnostic computes anything. The saved and warmup
  counts are not compared with the draws: \<^verbatim>\<open>validate_sim\<close> does not depend on
  them, and \<^verbatim>\<open>get_kept_samples\<close> does not depend on \<open>n_save\<close>.
\<close>

theorem chain_count_mismatch_signalled:
  "(length (samples s) \<noteq> chains s \<longrightarrow>
      validate_sim s = Inl domain_error
      \<and> effective_sample_size s n = Inl domain_error
      \<and> split_potential_scale_reduction s n = Inl domain_error)
   \<and> validate_sim (s\<lparr>n_save := sv, warmup2 := w\<rparr>) = validate_sim s
   \<and> get_kept_samples (s\<lparr>n_save := sv\<rparr>) k n = get_kept_samples s k n"
  by (simp add: validate_sim_def effective_sample_size_def split_potential_scale_reduction_def
        get_kept_samples_def)

theorem chain_count_mismatch_signalled_witness:
  "validate_sim ((sim_of_chains 1 [4, 4] [0, 0] [[map Fin [1, 3, 2, 4]]])\<lparr>chains := 2\<rparr>)
      = Inl domain_error
   \<and> effective_sample_size ((sim_of_chains 1 [4, 4] [0, 0] [[map Fin [1, 3, 2, 4]]])\<lparr>chains := 2\<rparr>) 0
      = Inl domain_error
   \<and> split_potential_scale_reduction
        ((sim_of_chains 1 [4, 4] [0, 0] [[map Fin [1, 3, 2, 4]]])\<lparr>chains := 2\<rparr>) 0
      = Inl domain_error"
  using chain_count_mismatch_signalled
          [of "(sim_of_chains 1 [4, 4] [0, 0] [[map Fin [1, 3, 2, 4]]])\<lparr>chains := 2\<rparr>" 0]
  by (simp add: sim_of_chains_def)

subsection \<open>The simplified effective sample size in closed form\<close>

lemma acov_lag_nth:
  "\<forall>a \<in> set acov. t < length a \<Longrightarrow> acov_lag acov t = Inr (map (\<lambda>a. a ! t) acov)"
  unfolding acov_lag_def by (rule mapE_all_Inr) (simp add: vec_at_def)

lemma rho_hat_loop2_takeWhile:
  assumes "\<forall>a \<in> set acov. length a = n_samples"
  shows "rho_hat_loop2 acov mean_var var_plus n_samples t rho_hat rho_hat_t
     = Inr (rho_hat_t @
            (if rho_hat \<ge> Fin 0
             then takeWhile (\<lambda>r. r \<ge> Fin 0)
                    (map (\<lambda>t. rho_hat_of mean_var var_plus (map (\<lambda>a. a ! t) acov))
                       [t ..< n_samples])
             else []))"
  using assms
proof (induction acov mean_var var_plus n_samples t rho_hat rho_hat_t rule: rho_hat_loop2.induct)
  case (1 acov mean_var var_plus n_samples t rho_hat rho_hat_t)
  show ?case
  proof (cases "t < n_samples \<and> rho_hat \<ge> Fin 0")
    case False
    then show ?thesis
      by (subst rho_hat_loop2.simps) auto
  next
    case True
    with "1.prems" have lag: "acov_lag acov t = Inr (map (\<lambda>a. a ! t) acov)"
      by (intro acov_lag_nth) simp
    from True have upt: "[t ..< n_samples] = t # [t + 1 ..< n_samples]"
      by (simp add: upt_conv_Cons)
    note IH = "1.IH" [OF True refl "1.prems", unfolded Suc_eq_plus1 [symmetric]]
    show ?thesis
      by (subst rho_hat_loop2.simps) (simp add: True lag Let_def IH upt del: upt_Suc)
  qed
qed

lemma chain_var2_eq:
  assumes "rectangular nm" and "0 < nrow nm"
  shows "chain_var2 nm
     = Inr (map (\<lambda>a. a ! 0 * of_uint (nrow nm) / of_uint (uint_sub (nrow nm) 1)) (acov2 nm))"
  unfolding chain_var2_def
  by (rule mapE_all_Inr)
     (use assms in \<open>auto simp add: chain_var_of_def vec_at_def acov2_def autocovariance_def
        rectangular_def list_all_iff\<close>)

lemma ess_of_Nil: "ess_of m n [] = of_uint (uint_mul m n)"
  by (simp add: ess_of_def dsum_def of_uint_def)

lemma effective_sample_size2_formula:
  assumes "rectangular nm" and "0 < nrow nm"
  shows "\<exists>chain_var. chain_var2 nm = Inr chain_var \<and>
     effective_sample_size2 nm
       = Inr (ess_of (ncol nm) (nrow nm)
               (takeWhile (\<lambda>r. r \<ge> Fin 0)
                 (map (\<lambda>t. rho_hat_of (mean chain_var) (var_plus2 nm chain_var)
                              (map (\<lambda>a. a ! t) (acov2 nm)))
                    [1 ..< nrow nm])))"
proof -
  from assms(1) have len: "\<forall>a \<in> set (acov2 nm). length a = nrow nm"
    by (auto simp add: acov2_def autocovariance_def rectangular_def list_all_iff)
  show ?thesis
    unfolding effective_sample_size2_def Let_def chain_var2_eq [OF assms]
      bindE_simps rho_hat_loop2_takeWhile [OF len]
    by (simp add: ess_of_Nil)
qed

subsection \<open>Sums of non-negative values\<close>

lemma foldl_plus_nonneg:
  assumes "\<forall>x \<in> set xs. x \<ge> Fin 0" and "(\<exists>a\<ge>0. acc = Fin a) \<or> acc = PInf"
  shows "(\<exists>s\<ge>0. foldl (+) acc xs = Fin s) \<or> foldl (+) acc xs = PInf"
  using assms
proof (induction xs arbitrary: acc)
  case Nil
  then show ?case by simp
next
  case (Cons x xs)
  from Cons.prems(1) have x: "x \<ge> Fin 0" by simp
  then have "(\<exists>b\<ge>0. x = Fin b) \<or> x = PInf" by (cases x) simp_all
  with Cons.prems(2) have "(\<exists>a\<ge>0. acc + x = Fin a) \<or> acc + x = PInf"
    by auto
  with Cons.IH [of "acc + x"] Cons.prems(1) show ?case by simp
qed

lemma dsum_nonneg:
  "\<forall>x \<in> set xs. x \<ge> Fin 0 \<Longrightarrow> (\<exists>s\<ge>0. dsum xs = Fin s) \<or> dsum xs = PInf"
  unfolding dsum_def by (rule foldl_plus_nonneg) simp_all

lemma uint_mul_le: "uint_mul m n \<le> m * n"
  by (simp add: uint_mul_def)

lemma ess_of_bounded:
  assumes "\<forall>x \<in> set xs. x \<ge> Fin 0"
  shows "Fin 1 + Fin 2 * dsum xs \<ge> Fin 1
       \<and> (\<exists>r. ess_of m n xs = Fin r \<and> r \<le> real (m * n))"
proof -
  have k: "real (uint_mul m n) \<le> real (m * n)" using uint_mul_le [of m n] by (simp only: of_nat_le_iff)
  from dsum_nonneg [OF assms] show ?thesis
  proof
    assume "\<exists>s\<ge>0. dsum xs = Fin s"
    then obtain s where s: "0 \<le> s" "dsum xs = Fin s" by blast
    have "real (uint_mul m n) / (1 + 2 * s) \<le> real (uint_mul m n)"
      using s(1) by (simp add: divide_le_eq mult_left_mono algebra_simps)
    with k s show ?thesis by (simp add: ess_of_def of_uint_def)
  next
    assume "dsum xs = PInf"
    then show ?thesis by (simp add: ess_of_def of_uint_def)
  qed
qed

lemmas ess_eval = effective_sample_size2_def ess_of_def chain_var2_def acov2_def chain_mean2_def
  var_plus2_def var_plus_of_def chain_var_of_def rho_hat_of_def acov_lag_def
  autocovariance_def autocovariance_at_def ncol_def vec_at_def uint_sub_def uint_mul_def
  rho_hat_loop2.simps stat_defs

lemma ess2_example:
  "effective_sample_size2 \<lparr>nrow = 4, columns = [map Fin [1, 2, 3, 5], map Fin [2, 4, 4, 6]]\<rparr>
     = Inr (Fin (4416 / 665))"
  by (simp add: ess_eval)

subsection \<open>Claim C10\<close>

text \<open>
  Claim C10. For every rectangular matrix with at least two rows and one column, the
  simplified effective sample size is returned, the values it has accumulated are all at least 0, the divisor
  \<open>1 + 2 * sum\<close> is at least 1, and the result is a finite number that is at most the
  number of draws \<open>m * n_samples\<close>.
\<close>

theorem effective_sample_size2_at_most_nominal:
  assumes "rectangular nm" and "2 \<le> nrow nm" and "0 < ncol nm"
  shows "\<exists>rho_hat_t r.
           effective_sample_size2 nm = Inr (ess_of (ncol nm) (nrow nm) rho_hat_t)
         \<and> list_all (\<lambda>x. x \<ge> Fin 0) rho_hat_t
         \<and> Fin 1 + Fin 2 * dsum rho_hat_t \<ge> Fin 1
         \<and> effective_sample_size2 nm = Inr (Fin r)
         \<and> r \<le> real (ncol nm * nrow nm)"
proof -
  from assms(2) have p: "0 < nrow nm" by simp
  from effective_sample_size2_formula [OF assms(1) p] obtain chain_var where
    e: "effective_sample_size2 nm
       = Inr (ess_of (ncol nm) (nrow nm)
               (takeWhile (\<lambda>r. r \<ge> Fin 0)
                 (map (\<lambda>t. rho_hat_of (mean chain_var) (var_plus2 nm chain_var)
                              (map (\<lambda>a. a ! t) (acov2 nm)))
                    [1 ..< nrow nm])))" (is "_ = Inr (ess_of _ _ ?xs)")
    by blast
  have nn: "\<forall>x \<in> set ?xs. x \<ge> Fin 0"
    by (meson set_takeWhileD)
  from ess_of_bounded [OF nn, of "ncol nm" "nrow nm"] obtain r where
    r: "Fin 1 + Fin 2 * dsum ?xs \<ge> Fin 1" "ess_of (ncol nm) (nrow nm) ?xs = Fin r"
       "r \<le> real (ncol nm * nrow nm)"
    by blast
  from nn have "list_all (\<lambda>x. x \<ge> Fin 0) ?xs" by (simp only: list_all_iff)
  with e r show ?thesis by (metis (no_types, lifting))
qed

theorem effective_sample_size2_at_most_nominal_witness:
  "\<exists>rho_hat_t r.
      effective_sample_size2 \<lparr>nrow = 4, columns = [map Fin [1, 2, 3, 5], map Fin [2, 4, 4, 6]]\<rparr>
        = Inr (ess_of 2 4 rho_hat_t)
    \<and> list_all (\<lambda>x. x \<ge> Fin 0) rho_hat_t
    \<and> Fin 1 + Fin 2 * dsum rho_hat_t \<ge> Fin 1
    \<and> effective_sample_size2 \<lparr>nrow = 4, columns = [map Fin [1, 2, 3, 5], map Fin [2, 4, 4, 6]]\<rparr>
        = Inr (Fin r)
    \<and> r \<le> 8"
proof -
  let ?nm = "\<lparr>nrow = 4, columns = [map Fin [1, 2, 3, 5], map Fin [2, 4, 4, 6]]\<rparr>"
  have r: "rectangular ?nm" by (simp add: rectangular_def)
  have p: "2 \<le> nrow ?nm" by simp
  have n: "ncol ?nm = 2" by (simp add: ncol_def)
  then have c: "0 < ncol ?nm" by simp
  from effective_sample_size2_at_most_nominal [OF r p c, unfolded n] show ?thesis
    by simp
qed

subsection \<open>The initial positive sequence in closed form\<close>









subsection \<open>The initial monotone sequence\<close>

lemma pairs_nonneg_update:
  assumes "pairs_nonneg rho" and "odd t" and "t + 2 < length rho" and "a + b \<ge> Fin 0"
  shows "pairs_nonneg (rho[t + 1 := a, t + 2 := b])"
  unfolding pairs_nonneg_def
proof (intro allI impI)
  fix j assume j: "1 \<le> j \<and> 2 * j + 1 < length (rho[t + 1 := a, t + 2 := b])"
  show "rho[t + 1 := a, t + 2 := b] ! (2 * j) + rho[t + 1 := a, t + 2 := b] ! (2 * j + 1) \<ge> Fin 0"
  proof (cases "2 * j = t + 1")
    case True
    then have "2 * j + 1 = t + 2" by simp
    with True assms(3,4) show ?thesis by (simp add: nth_list_update)
  next
    case False
    with assms(2) have "2 * j \<noteq> t + 2" "2 * j + 1 \<noteq> t + 1" "2 * j + 1 \<noteq> t + 2"
      by presburger+
    with False assms(1) j show ?thesis
      by (simp add: pairs_nonneg_def nth_list_update)
  qed
qed

lemma pairs_nonneg_at:
  assumes "pairs_nonneg rho" and "odd t" and "3 \<le> t" and "t < length rho"
  shows "rho ! (t - 1) + rho ! t \<ge> Fin 0"
proof -
  from assms(2,3) obtain j where j: "t = 2 * j + 1" "1 \<le> j" by (auto elim!: oddE)
  with assms(1,4) show ?thesis by (auto simp add: pairs_nonneg_def)
qed

lemma clamp_sum:
  assumes "(prev::double) \<ge> Fin 0" and "cur > prev"
  shows "prev / Fin 2 + prev / Fin 2 = prev"
  using assms by (cases prev; cases cur) simp_all

lemma not_greater_le:
  assumes "(prev::double) \<ge> Fin 0" and "cur \<ge> Fin 0" and "\<not> cur > prev"
  shows "cur \<le> prev"
  using assms by (cases prev; cases cur) simp_all

lemma nonneg_le_refl: "(x::double) \<ge> Fin 0 \<Longrightarrow> x \<le> x"
  by (cases x) simp_all

lemma monotone_loop_post:
  assumes "max_t < length rho" and "odd t" and "3 \<le> t" and "pairs_nonneg rho"
  shows "\<exists>rho'. monotone_loop max_t t rho = Inr rho' \<and> length rho' = length rho
           \<and> (\<forall>i \<le> t. rho' ! i = rho ! i) \<and> pairs_nonneg rho'
           \<and> (\<forall>t'. odd t' \<and> t \<le> t' \<and> t' + 2 \<le> max_t
                  \<longrightarrow> rho' ! (t' + 1) + rho' ! (t' + 2) \<le> rho' ! (t' - 1) + rho' ! t')"
  using assms
proof (induction max_t t rho rule: monotone_loop.induct)
  case (1 max_t t rho)
  show ?case
  proof (cases "t + 2 \<le> max_t")
    case False
    then have f1: "monotone_loop max_t t rho = Inr rho"
      by (subst monotone_loop.simps) simp
    have f5: "\<forall>t'. odd t' \<and> t \<le> t' \<and> t' + 2 \<le> max_t
                  \<longrightarrow> rho ! (t' + 1) + rho ! (t' + 2) \<le> rho ! (t' - 1) + rho ! t'"
    proof (intro allI impI)
      fix t' assume "odd t' \<and> t \<le> t' \<and> t' + 2 \<le> max_t"
      with False have False by linarith
      then show "rho ! (t' + 1) + rho ! (t' + 2) \<le> rho ! (t' - 1) + rho ! t'" ..
    qed
    show ?thesis
      by (rule exI [of _ rho], intro conjI) (fact f1 f5 "1.prems"(4) | simp)+
  next
    case True
    with "1.prems" have rng: "t + 2 < length rho \<and> 1 \<le> t" by simp
    let ?prev = "rho ! (t - 1) + rho ! t"
    let ?cur = "rho ! (t + 1) + rho ! (t + 2)"
    let ?r = "?prev / Fin 2"
    let ?rho1 = "if ?cur > ?prev then rho[t + 1 := ?r, t + 2 := ?r] else rho"
    from "1.prems" rng have prev: "?prev \<ge> Fin 0"
      by (intro pairs_nonneg_at) simp_all
    from "1.prems" have "odd (t + 2)" "3 \<le> t + 2" by simp_all
    with "1.prems"(4) rng have cur: "?cur \<ge> Fin 0"
      using pairs_nonneg_at [of rho "t + 2"] by simp
    have pn1: "pairs_nonneg ?rho1"
    proof (cases "?cur > ?prev")
      case True
      from clamp_sum [OF prev True] prev have "?r + ?r \<ge> Fin 0" by simp
      from pairs_nonneg_update [OF "1.prems"(4,2) _ this] rng True show ?thesis by simp
    next
      case False
      with "1.prems"(4) show ?thesis by simp
    qed
    have len1: "length ?rho1 = length rho" by simp
    have low: "\<forall>i \<le> t. ?rho1 ! i = rho ! i" by simp
    have post1: "?rho1 ! (t + 1) + ?rho1 ! (t + 2) \<le> ?rho1 ! (t - 1) + ?rho1 ! t"
    proof (cases "?cur > ?prev")
      case True
      from rng have "t - 1 \<noteq> t + 1" "t - 1 \<noteq> t + 2" by simp_all
      with True rng clamp_sum [OF prev True] nonneg_le_refl [OF prev] show ?thesis
        by (simp add: nth_list_update)
    next
      case False
      with not_greater_le [OF prev cur False] show ?thesis by simp
    qed
    have step: "monotone_loop max_t t rho = monotone_loop max_t (t + 2) ?rho1"
      using True rng by (subst monotone_loop.simps) (simp add: Let_def)
    from "1.prems" have p1: "max_t < length ?rho1" "odd (t + 2)" "3 \<le> t + 2" by simp_all
    from "1.IH" [unfolded Let_def, OF True rng p1 pn1] obtain rho' where
      r: "monotone_loop max_t (t + 2) ?rho1 = Inr rho'" "length rho' = length ?rho1"
         "\<forall>i \<le> t + 2. rho' ! i = ?rho1 ! i" "pairs_nonneg rho'"
         "\<forall>t'. odd t' \<and> t + 2 \<le> t' \<and> t' + 2 \<le> max_t
              \<longrightarrow> rho' ! (t' + 1) + rho' ! (t' + 2) \<le> rho' ! (t' - 1) + rho' ! t'"
      by blast
    have a: "\<forall>i \<le> t. rho' ! i = rho ! i"
    proof (intro allI impI)
      fix i assume i: "i \<le> t"
      then have "i \<le> t + 2" by simp
      with r(3) have "rho' ! i = ?rho1 ! i" by blast
      also from low i have "?rho1 ! i = rho ! i" by blast
      finally show "rho' ! i = rho ! i" .
    qed
    have b: "rho' ! (t' + 1) + rho' ! (t' + 2) \<le> rho' ! (t' - 1) + rho' ! t'"
      if t': "odd t' \<and> t \<le> t' \<and> t' + 2 \<le> max_t" for t'
    proof (cases "t' = t")
      case True
      have "rho' ! (t + 1) = ?rho1 ! (t + 1)" "rho' ! (t + 2) = ?rho1 ! (t + 2)"
        "rho' ! (t - 1) = ?rho1 ! (t - 1)" "rho' ! t = ?rho1 ! t"
        using r(3) by simp_all
      with post1 True show ?thesis by (simp only:)
    next
      case False
      with t' "1.prems"(2) have "t + 2 \<le> t'" by presburger
      with r(5) t' show ?thesis by blast
    qed
    have f1: "monotone_loop max_t t rho = Inr rho'" by (simp only: step r(1))
    have f2: "length rho' = length rho" using r(2) len1 by (simp only:)
    have f5: "\<forall>t'. odd t' \<and> t \<le> t' \<and> t' + 2 \<le> max_t
                  \<longrightarrow> rho' ! (t' + 1) + rho' ! (t' + 2) \<le> rho' ! (t' - 1) + rho' ! t'"
      using b by (intro allI impI)
    show ?thesis
      by (rule exI [of _ rho'], intro conjI) (fact f1 f2 a r(4) f5)+
  qed
qed

subsection \<open>Invariants of the initial positive sequence\<close>

lemma uint_sub_small: "b \<le> a \<Longrightarrow> a < 4294967296 \<Longrightarrow> uint_sub a b = a - b"
proof -
  assume a: "b \<le> a" "a < 4294967296"
  then have b: "b mod 4294967296 = b" by simp
  from a have "a + 4294967296 - b = (a - b) + 4294967296" by simp
  then have "(a + 4294967296 - b) mod 4294967296 = (a - b) mod 4294967296"
    by (simp only: mod_add_self2)
  with a show ?thesis unfolding uint_sub_def b by simp
qed

lemma uint_sub_2_le: "2 \<le> n \<Longrightarrow> uint_sub n 2 + 2 \<le> n"
proof -
  assume n: "2 \<le> n"
  then have "n + 4294967296 - 2 = (n - 2) + 4294967296" by simp
  then have "(n + 4294967296 - 2) mod 4294967296 = (n - 2) mod 4294967296"
    by (simp only: mod_add_self2)
  moreover have "(2::nat) mod 4294967296 = 2" by simp
  ultimately have "uint_sub n 2 = (n - 2) mod 4294967296"
    unfolding uint_sub_def by (simp only:)
  also have "\<dots> \<le> n - 2" by (rule mod_less_eq_dividend)
  finally show ?thesis using n by simp
qed

lemma pairs_nonneg_initial: "pairs_nonneg ((replicate n (Fin 0))[1 := r])"
  unfolding pairs_nonneg_def
proof (intro allI impI)
  fix j assume j: "1 \<le> j \<and> 2 * j + 1 < length ((replicate n (Fin 0))[1 := r])"
  then have "2 * j \<noteq> 1" "2 * j + 1 \<noteq> 1" "2 * j < n" "2 * j + 1 < n" by simp_all
  then show "(replicate n (Fin 0))[1 := r] ! (2 * j) + (replicate n (Fin 0))[1 := r] ! (2 * j + 1) \<ge> Fin 0"
    by (simp add: nth_list_update)
qed

lemma positive_loop_invariant:
  assumes "positive_loop acov mean_var var_plus bound t e od rho mt0 = Inr (rho', mt')"
    and "bound + 2 \<le> length rho" and "mt0 < length rho" and "pairs_nonneg rho" and "odd t"
  shows "length rho' = length rho \<and> mt' < length rho \<and> pairs_nonneg rho'"
  using assms
proof (induction "bound - t" arbitrary: t e od rho mt0 rule: less_induct)
  case less
  show ?case
  proof (cases "t < bound \<and> e + od \<ge> Fin 0")
    case False
    then have "positive_loop acov mean_var var_plus bound t e od rho mt0 = Inr (rho, mt0)"
      by (subst positive_loop.simps) auto
    with less.prems show ?thesis by simp
  next
    case True
    from True less.prems(2) have in_range: "t + 2 < length rho" by simp
    from less.prems(1) True obtain a1 where a1: "acov_lag acov (t + 1) = Inr a1"
      by (subst (asm) positive_loop.simps) (cases "acov_lag acov (t + 1)", simp_all)
    from less.prems(1) True a1 obtain a2 where a2: "acov_lag acov (t + 2) = Inr a2"
      by (subst (asm) positive_loop.simps) (cases "acov_lag acov (t + 2)", simp_all)
    let ?e = "rho_hat_of mean_var var_plus a1"
    let ?od = "rho_hat_of mean_var var_plus a2"
    let ?rho1 = "if ?e + ?od \<ge> Fin 0 then rho[t + 1 := ?e, t + 2 := ?od] else rho"
    have step: "positive_loop acov mean_var var_plus bound t e od rho mt0
              = positive_loop acov mean_var var_plus bound (t + 2) ?e ?od ?rho1 (t + 2)"
      using True in_range a1 a2 by (subst positive_loop.simps) (simp add: Let_def)
    have pn: "pairs_nonneg ?rho1"
    proof (cases "?e + ?od \<ge> Fin 0")
      case True
      from pairs_nonneg_update [OF less.prems(4,5) in_range True] True show ?thesis by simp
    next
      case False
      with less.prems(4) show ?thesis by simp
    qed
    from True have m: "bound - (t + 2) < bound - t" by linarith
    from less.prems(1) have r: "positive_loop acov mean_var var_plus bound (t + 2) ?e ?od ?rho1 (t + 2)
                 = Inr (rho', mt')"
      by (simp only: step)
    from less.prems(2) have b: "bound + 2 \<le> length ?rho1" by simp
    from in_range have mt: "t + 2 < length ?rho1" by simp
    from less.prems(5) have od: "odd (t + 2)" by simp
    have len1: "length ?rho1 = length rho" by simp
    from less.hyps [OF m r b mt pn od] show ?thesis unfolding len1 .
  qed
qed

lemma positive_sequence_invariant:
  assumes "positive_sequence acov mean_var var_plus n_samples = Inr (rho_hat_t, max_t)"
  shows "length rho_hat_t = n_samples \<and> max_t < n_samples \<and> pairs_nonneg rho_hat_t"
proof -
  from assms obtain a1 where a1: "acov_lag acov 1 = Inr a1"
    unfolding positive_sequence_def by (cases "acov_lag acov 1") simp_all
  from assms a1 have n: "1 < n_samples"
    unfolding positive_sequence_def by (simp add: Let_def split: if_splits)
  let ?r = "rho_hat_of mean_var var_plus a1"
  let ?init = "(replicate n_samples (Fin 0))[1 := ?r]"
  from assms a1 n have l: "positive_loop acov mean_var var_plus (uint_sub n_samples 2) 1
       (Fin 1) ?r ?init 1 = Inr (rho_hat_t, max_t)"
    unfolding positive_sequence_def by (simp add: Let_def)
  from n have b: "uint_sub n_samples 2 + 2 \<le> length ?init"
    using uint_sub_2_le [of n_samples] by simp
  from n have m: "1 < length ?init" by simp
  from positive_loop_invariant [OF l b m pairs_nonneg_initial] show ?thesis by simp
qed


subsection \<open>The moments of a well-formed request\<close>

lemma kept_counts_zip:
  "length sv = length w \<Longrightarrow> kept_counts sv w = Inr (map (\<lambda>(a, b). uint_sub a b) (zip sv w))"
  by (induction sv w rule: list_induct2) simp_all

lemma mapE_upt: "(\<And>k. k < m \<Longrightarrow> f k = Inr (g k)) \<Longrightarrow> mapE f [0 ..< m] = Inr (map g [0 ..< m])"
  by (rule mapE_all_Inr) simp

lemma min_fold:
  fixes ns :: "nat list"
  assumes "m \<le> length ns" and "1 \<le> m"
  shows "\<exists>n'. foldl (\<lambda>acc chain. bindE acc (\<lambda>n_samples.
                    bindE (vec_at ns chain) (\<lambda>nk. Inr (min n_samples nk))))
                 (Inr (ns ! 0)) [1 ..< m] = Inr n'
            \<and> (\<forall>k < m. n' \<le> ns ! k) \<and> (\<exists>k < m. n' = ns ! k)"
  using assms
proof (induction m)
  case 0
  then show ?case by simp
next
  case (Suc m)
  show ?case
  proof (cases "m = 0")
    case True
    then show ?thesis by simp
  next
    case False
    with Suc obtain n' where
      n': "foldl (\<lambda>acc chain. bindE acc (\<lambda>n_samples.
                    bindE (vec_at ns chain) (\<lambda>nk. Inr (min n_samples nk))))
                 (Inr (ns ! 0)) [1 ..< m] = Inr n'"
          "\<forall>k < m. n' \<le> ns ! k" "\<exists>k < m. n' = ns ! k"
      by auto
    from False have upt: "[1 ..< Suc m] = [1 ..< m] @ [m]" by simp
    from Suc.prems have at: "vec_at ns m = Inr (ns ! m)" by (simp add: vec_at_def)
    have f: "foldl (\<lambda>acc chain. bindE acc (\<lambda>n_samples.
                    bindE (vec_at ns chain) (\<lambda>nk. Inr (min n_samples nk))))
                 (Inr (ns ! 0)) [1 ..< Suc m] = Inr (min n' (ns ! m))"
      unfolding upt foldl_append n'(1) by (simp add: at)
    have a: "\<forall>k < Suc m. min n' (ns ! m) \<le> ns ! k"
    proof (intro allI impI)
      fix k assume "k < Suc m"
      then consider "k < m" | "k = m" by linarith
      then show "min n' (ns ! m) \<le> ns ! k"
      proof cases
        case 1
        with n'(2) have "n' \<le> ns ! k" by blast
        then show ?thesis by simp
      next
        case 2
        then show ?thesis by simp
      qed
    qed
    have b: "\<exists>k < Suc m. min n' (ns ! m) = ns ! k"
    proof (cases "n' \<le> ns ! m")
      case True
      from n'(3) obtain k where "k < m" "n' = ns ! k" by blast
      with True have "k < Suc m \<and> min n' (ns ! m) = ns ! k" by simp
      then show ?thesis by blast
    next
      case False
      then have "m < Suc m \<and> min n' (ns ! m) = ns ! m" by simp
      then show ?thesis by blast
    qed
    from f a b show ?thesis by blast
  qed
qed

lemma min_kept_min:
  fixes ns :: "nat list"
  assumes "m \<le> length ns" and "1 \<le> m"
  shows "\<exists>n'. min_kept ns m = Inr n' \<and> (\<forall>k < m. n' \<le> ns ! k) \<and> (\<exists>k < m. n' = ns ! k)"
proof -
  from assms have "0 < length ns" by linarith
  then have "vec_at ns 0 = Inr (ns ! 0)" by (simp add: vec_at_def)
  with min_fold [OF assms] show ?thesis
    unfolding min_kept_def by simp
qed

lemma map_nth_drop: "map ((!) xs) [w ..< length xs] = drop w xs"
  by (simp add: list_eq_iff_nth_eq)

lemma well_formedD:
  assumes "well_formed s n" and "k < chains s"
  shows "k < length (samples s)" and "n < length (samples s ! k)"
    and "length (samples s ! k ! n) = n_save s ! k"
    and "warmup2 s ! k + 2 \<le> n_save s ! k" and "n_save s ! k < 4294967296"
    and "k < length (n_save s)" and "k < length (warmup2 s)"
proof -
  from assms(1) have v: "validate_sim s = Inr ()" by (simp add: well_formed_def)
  then have "length (samples s) = chains s"
    by (simp add: validate_sim_def split: if_splits)
  with assms(2) show "k < length (samples s)" by simp
  from assms show "n < length (samples s ! k)" "length (samples s ! k ! n) = n_save s ! k"
    "warmup2 s ! k + 2 \<le> n_save s ! k" "n_save s ! k < 4294967296"
    "k < length (n_save s)" "k < length (warmup2 s)"
    by (simp_all add: well_formed_def list_all_iff)
qed

lemma get_kept_samples_well_formed:
  assumes "well_formed s n" and "k < chains s"
  shows "get_kept_samples s k n = Inr (drop (warmup2 s ! k) (samples s ! k ! n))"
  using well_formedD [OF assms]
  by (simp add: get_kept_samples_def vec_at_def)

lemma apply_kept_samples_well_formed:
  assumes "well_formed s n" and "k < chains s"
  shows "apply_kept_samples s k n = Inr (drop (warmup2 s ! k) (samples s ! k ! n))"
proof -
  note d = well_formedD [OF assms]
  have "mapE (vec_at (samples s ! k ! n)) [warmup2 s ! k ..< length (samples s ! k ! n)]
      = Inr (map ((!) (samples s ! k ! n)) [warmup2 s ! k ..< length (samples s ! k ! n)])"
    by (rule mapE_all_Inr) (simp add: vec_at_def)
  with d map_nth_drop [of "samples s ! k ! n" "warmup2 s ! k"] show ?thesis
    by (simp add: apply_kept_samples_def vec_at_def)
qed

lemma kept_draws_length:
  assumes "well_formed s n" and "k < chains s"
  shows "kept_draws s n ! k = drop (warmup2 s ! k) (samples s ! k ! n)"
    and "length (kept_draws s n ! k) = n_save s ! k - warmup2 s ! k"
    and "2 \<le> length (kept_draws s n ! k)" and "length (kept_draws s n ! k) < 4294967296"
    and "uint_sub (n_save s ! k) (warmup2 s ! k) = length (kept_draws s n ! k)"
proof -
  note d = well_formedD [OF assms]
  from assms(2) show k: "kept_draws s n ! k = drop (warmup2 s ! k) (samples s ! k ! n)"
    by (simp add: kept_draws_def)
  from d show l: "length (kept_draws s n ! k) = n_save s ! k - warmup2 s ! k"
    unfolding k by simp
  from d show "2 \<le> length (kept_draws s n ! k)" "length (kept_draws s n ! k) < 4294967296"
    unfolding l by simp_all
  from d have "uint_sub (n_save s ! k) (warmup2 s ! k) = n_save s ! k - warmup2 s ! k"
    by (intro uint_sub_small) simp_all
  with l show "uint_sub (n_save s ! k) (warmup2 s ! k) = length (kept_draws s n ! k)" by simp
qed

lemma ess_moments_well_formed:
  assumes wf: "well_formed s n"
  shows "\<exists>n_samples.
      ess_moments s n
        = Inr (n_samples, map autocovariance (kept_draws s n),
               mean (chain_vars (kept_draws s n)),
               var_plus_of (mean (chain_vars (kept_draws s n))) n_samples (chains s)
                 (map mean (kept_draws s n)))
    \<and> 2 \<le> n_samples \<and> n_samples < 4294967296
    \<and> (\<forall>c \<in> set (kept_draws s n). n_samples \<le> length c)
    \<and> (\<exists>c \<in> set (kept_draws s n). n_samples = length c)"
proof -
  let ?m = "chains s"
  let ?kept = "kept_draws s n"
  let ?ns = "map (\<lambda>(a, b). uint_sub a b) (zip (n_save s) (warmup2 s))"
  from wf have m: "1 \<le> ?m" and ls: "length (n_save s) = ?m" and lw: "length (warmup2 s) = ?m"
    by (simp_all add: well_formed_def)
  have lk: "length ?kept = ?m" by (simp add: kept_draws_def)
  have kc: "kept_counts (n_save s) (warmup2 s) = Inr ?ns"
    by (rule kept_counts_zip) (simp add: ls lw)
  have lns: "length ?ns = ?m" by (simp add: ls lw)
  have ns: "?ns ! k = length (?kept ! k)" if "k < ?m" for k
    using that kept_draws_length(5) [OF wf that] by (simp add: ls lw)
  from lns m have "?m \<le> length ?ns" by simp
  from min_kept_min [OF this m] obtain n_samples where
    mk: "min_kept ?ns ?m = Inr n_samples" and le: "\<forall>k < ?m. n_samples \<le> ?ns ! k"
    and ex: "\<exists>k < ?m. n_samples = ?ns ! k"
    by blast
  from ex obtain k0 where k0: "k0 < ?m" "n_samples = ?ns ! k0" by blast
  from k0 ns kept_draws_length(3,4) [OF wf k0(1)] have n2: "2 \<le> n_samples" "n_samples < 4294967296"
    by simp_all
  have all: "\<forall>c \<in> set ?kept. n_samples \<le> length c"
  proof
    fix c assume "c \<in> set ?kept"
    then obtain k where k: "k < ?m" "c = ?kept ! k"
      using lk by (metis in_set_conv_nth)
    with le ns show "n_samples \<le> length c" by simp
  qed
  from k0 lk have "?kept ! k0 \<in> set ?kept" by simp
  with k0 ns have exc: "\<exists>c \<in> set ?kept. n_samples = length c" by auto
  have acov: "acov_sim s n = Inr (map autocovariance ?kept)"
  proof -
    have "mapE (\<lambda>chain. autocovariance_sim s chain n) [0 ..< ?m]
        = Inr (map (\<lambda>k. autocovariance (drop (warmup2 s ! k) (samples s ! k ! n))) [0 ..< ?m])"
      by (rule mapE_upt) (simp add: autocovariance_sim_def get_kept_samples_well_formed [OF wf])
    then show ?thesis
      by (simp add: acov_sim_def num_chains_def kept_draws_def comp_def)
  qed
  have cmean: "chain_mean_sim s n = Inr (map mean ?kept)"
  proof -
    have "mapE (\<lambda>chain. get_chain_mean s chain n) [0 ..< ?m]
        = Inr (map (\<lambda>k. mean (drop (warmup2 s ! k) (samples s ! k ! n))) [0 ..< ?m])"
    proof (rule mapE_upt)
      fix k assume k: "k < ?m"
      from wf have "n < n_flatnames s" by (simp add: well_formed_def)
      with k show "get_chain_mean s k n = Inr (mean (drop (warmup2 s ! k) (samples s ! k ! n)))"
        by (simp add: get_chain_mean_def validate_chain_idx_def validate_param_idx_def
              num_chains_def num_params_def apply_kept_samples_well_formed [OF wf k])
    qed
    then show ?thesis
      by (simp add: chain_mean_sim_def num_chains_def kept_draws_def comp_def)
  qed
  have cvar: "chain_var_sim (map autocovariance ?kept) ?ns ?m = Inr (chain_vars ?kept)"
  proof -
    have "mapE (\<lambda>chain. bindE (vec_at ?ns chain) (\<lambda>n_kept_samples.
                    bindE (vec_at (map autocovariance ?kept) chain) (\<lambda>acov_chain.
                      chain_var_of acov_chain n_kept_samples))) [0 ..< ?m]
        = Inr (map (\<lambda>k. autocovariance (?kept ! k) ! 0 * of_uint (length (?kept ! k))
                           / of_uint (length (?kept ! k) - 1)) [0 ..< ?m])"
    proof (rule mapE_upt)
      fix k assume k: "k < ?m"
      note kl = kept_draws_length [OF wf k]
      from kl have us: "uint_sub (length (?kept ! k)) 1 = length (?kept ! k) - 1"
        by (intro uint_sub_small) simp_all
      from kl have ne: "0 < length (autocovariance (?kept ! k))"
        by (simp add: autocovariance_def)
      from k lns have a: "vec_at ?ns k = Inr (length (?kept ! k))"
        using ns [OF k] by (simp add: vec_at_def del: nth_map nth_zip)
      from k lk have b: "vec_at (map autocovariance ?kept) k = Inr (autocovariance (?kept ! k))"
        by (simp add: vec_at_def)
      from ne have c: "vec_at (autocovariance (?kept ! k)) 0 = Inr (autocovariance (?kept ! k) ! 0)"
        by (simp add: vec_at_def)
      show "bindE (vec_at ?ns k) (\<lambda>n_kept_samples.
                    bindE (vec_at (map autocovariance ?kept) k) (\<lambda>acov_chain.
                      chain_var_of acov_chain n_kept_samples))
          = Inr (autocovariance (?kept ! k) ! 0 * of_uint (length (?kept ! k))
                   / of_uint (length (?kept ! k) - 1))"
        unfolding a b bindE_simps chain_var_of_def c us ..
    qed
    also have "map (\<lambda>k. autocovariance (?kept ! k) ! 0 * of_uint (length (?kept ! k))
                           / of_uint (length (?kept ! k) - 1)) [0 ..< ?m]
             = chain_vars ?kept"
      unfolding chain_vars_def
      by (subst (2) map_nth [symmetric, of ?kept]) (simp only: map_map comp_def lk)
    finally show ?thesis by (simp only: chain_var_sim_def)
  qed
  have "ess_moments s n
        = Inr (n_samples, map autocovariance ?kept, mean (chain_vars ?kept),
               var_plus_of (mean (chain_vars ?kept)) n_samples ?m (map mean ?kept))"
    unfolding ess_moments_def Let_def num_chains_def kc bindE_simps mk acov cmean cvar ..
  with n2 all exc show ?thesis by blast
qed

subsection \<open>A record with two chains of six draws\<close>

lemma replicate_numeral: "replicate (numeral k) x = x # replicate (pred_numeral k) x"
  by (simp add: numeral_eq_Suc)

lemma two_chain_moments:
  "ess_moments (sim_of_chains 1 [6, 6] [0, 0]
       [[map Fin [0, 0, 0, 0, 1, 0]], [map Fin [1, 1, 1, 1, 2, 1]]]) 0
   = Inr (6, [map Fin [5 / 36, - 7 / 216, - 1 / 108, - 1 / 72, - 1 / 54, 1 / 216],
              map Fin [5 / 36, - 7 / 216, - 1 / 108, - 1 / 72, - 1 / 54, 1 / 216]],
          Fin (1 / 6), Fin (23 / 36))"
  by (simp add: ess_moments_def sim_of_chains_def sim_eval acov_sim_def chain_mean_sim_def
        chain_var_sim_def Let_def ess_eval upt_conv_Cons)

lemma two_chain_positive:
  "positive_sequence [map Fin [5 / 36, - 7 / 216, - 1 / 108, - 1 / 72, - 1 / 54, 1 / 216],
                      map Fin [5 / 36, - 7 / 216, - 1 / 108, - 1 / 72, - 1 / 54, 1 / 216]]
       (Fin (1 / 6)) (Fin (23 / 36)) 6
   = Inr (map Fin [0, 95 / 138, 50 / 69, 33 / 46, 49 / 69, 103 / 138], 5)"
  by (simp add: positive_sequence_def Let_def ess_eval positive_loop.simps replicate_numeral)

lemma two_chain_monotone:
  "monotone_loop 5 3 (map Fin [0, 95 / 138, 50 / 69, 33 / 46, 49 / 69, 103 / 138])
   = Inr (map Fin [0, 95 / 138, 50 / 69, 33 / 46, 199 / 276, 199 / 276])"
  by (simp add: monotone_loop.simps Let_def)




lemma sim_of_matrix_well_formed:
  assumes "rectangular nm" and "2 \<le> nrow nm" and "nrow nm < 4294967296" and "0 < ncol nm"
  shows "well_formed (sim_of_matrix nm) 0"
    and "kept_draws (sim_of_matrix nm) 0 = columns nm"
    and "chains (sim_of_matrix nm) = ncol nm"
proof -
  from assms(1) have len: "\<forall>k < ncol nm. length (columns nm ! k) = nrow nm"
    by (simp add: rectangular_def list_all_length ncol_def)
  show c: "chains (sim_of_matrix nm) = ncol nm"
    by (simp add: sim_of_matrix_def sim_of_chains_def ncol_def)
  have v: "validate_sim (sim_of_matrix nm) = Inr ()"
    unfolding sim_of_matrix_def by (rule validate_sim_of_chains)
  have "list_all (\<lambda>k. 0 < length (samples (sim_of_matrix nm) ! k)
                       \<and> length (samples (sim_of_matrix nm) ! k ! 0) = n_save (sim_of_matrix nm) ! k
                       \<and> warmup2 (sim_of_matrix nm) ! k + 2 \<le> n_save (sim_of_matrix nm) ! k
                       \<and> n_save (sim_of_matrix nm) ! k < 4294967296)
                  [0 ..< ncol nm]"
    unfolding list_all_iff
  proof
    fix k assume "k \<in> set [0 ..< ncol nm]"
    then have k: "k < ncol nm" by simp
    then have "k < length (columns nm)" by (simp add: ncol_def)
    with k len assms(2,3) show "0 < length (samples (sim_of_matrix nm) ! k)
                       \<and> length (samples (sim_of_matrix nm) ! k ! 0) = n_save (sim_of_matrix nm) ! k
                       \<and> warmup2 (sim_of_matrix nm) ! k + 2 \<le> n_save (sim_of_matrix nm) ! k
                       \<and> n_save (sim_of_matrix nm) ! k < 4294967296"
      by (simp add: sim_of_matrix_def sim_of_chains_def)
  qed
  with v assms(4) show "well_formed (sim_of_matrix nm) 0"
    unfolding well_formed_def c by (simp add: sim_of_matrix_def sim_of_chains_def)
  have "map (\<lambda>k. drop (warmup2 (sim_of_matrix nm) ! k) (samples (sim_of_matrix nm) ! k ! 0))
            [0 ..< length (columns nm)]
      = map (\<lambda>k. columns nm ! k) [0 ..< length (columns nm)]"
    by (rule map_cong) (simp_all add: sim_of_matrix_def sim_of_chains_def ncol_def)
  then show "kept_draws (sim_of_matrix nm) 0 = columns nm"
    unfolding kept_draws_def c ncol_def by (simp only: map_nth)
qed

subsection \<open>Claim C6\<close>

text \<open>
  Claim C6. Whenever the initial positive sequence of the full variant has returned a vector
  \<^verbatim>\<open>rho_hat_t\<close> and \<^verbatim>\<open>max_t\<close>, the initial monotone sequence pass returns a
  vector in which, for every odd lag \<open>t\<close> with \<open>3 \<le> t \<le> max_t - 2\<close>, the pair sum
  \<open>rho_hat[t+1] + rho_hat[t+2]\<close> is at most \<open>rho_hat[t-1] + rho_hat[t]\<close>; it is this
  vector that the effective sample size sums.
\<close>

theorem monotone_pass_pair_sums_nonincreasing:
  assumes "positive_sequence acov mean_var var_plus n_samples = Inr (rho_hat_t, max_t)"
  shows "\<exists>rho'. monotone_loop max_t 3 rho_hat_t = Inr rho'
          \<and> (\<forall>t. odd t \<and> 3 \<le> t \<and> t + 2 \<le> max_t
                 \<longrightarrow> rho' ! (t + 1) + rho' ! (t + 2) \<le> rho' ! (t - 1) + rho' ! t)
          \<and> (validate_sim s = Inr () \<and> validate_param_idx s n = Inr ()
               \<and> ess_moments s n = Inr (n_samples, acov, mean_var, var_plus)
             \<longrightarrow> effective_sample_size s n = Inr (ess_of (num_chains s) n_samples rho'))"
proof -
  from positive_sequence_invariant [OF assms] have
    i: "max_t < length rho_hat_t" "pairs_nonneg rho_hat_t" by simp_all
  have o: "odd (3::nat)" "(3::nat) \<le> 3" by simp_all
  from monotone_loop_post [OF i(1) o i(2)] obtain rho' where
    r: "monotone_loop max_t 3 rho_hat_t = Inr rho'"
       "\<forall>t'. odd t' \<and> 3 \<le> t' \<and> t' + 2 \<le> max_t
             \<longrightarrow> rho' ! (t' + 1) + rho' ! (t' + 2) \<le> rho' ! (t' - 1) + rho' ! t'"
    by blast
  have e: "effective_sample_size s n = Inr (ess_of (num_chains s) n_samples rho')"
    if "validate_sim s = Inr () \<and> validate_param_idx s n = Inr ()
         \<and> ess_moments s n = Inr (n_samples, acov, mean_var, var_plus)"
    using that by (simp add: effective_sample_size_def assms r(1))
  show ?thesis
    by (rule exI [of _ rho'], intro conjI impI) (fact r(1) r(2) | rule e, assumption)+
qed

theorem monotone_pass_pair_sums_nonincreasing_witness:
  "monotone_loop 5 3 (map Fin [0, 95 / 138, 50 / 69, 33 / 46, 49 / 69, 103 / 138])
     = Inr (map Fin [0, 95 / 138, 50 / 69, 33 / 46, 199 / 276, 199 / 276])
   \<and> map Fin [0, 95 / 138, 50 / 69, 33 / 46, 199 / 276, 199 / 276] ! (3 + 1)
       + map Fin [0, 95 / 138, 50 / 69, 33 / 46, 199 / 276, 199 / 276] ! (3 + 2)
     \<le> map Fin [0, 95 / 138, 50 / 69, 33 / 46, 199 / 276, 199 / 276] ! (3 - 1)
       + map Fin [0, 95 / 138, 50 / 69, 33 / 46, 199 / 276, 199 / 276] ! 3
   \<and> effective_sample_size (sim_of_chains 1 [6, 6] [0, 0]
        [[map Fin [0, 0, 0, 0, 1, 0]], [map Fin [1, 1, 1, 1, 2, 1]]]) 0
     = Inr (ess_of 2 6 (map Fin [0, 95 / 138, 50 / 69, 33 / 46, 199 / 276, 199 / 276]))"
proof -
  let ?s = "sim_of_chains 1 [6, 6] [0, 0]
        [[map Fin [0, 0, 0, 0, 1, 0]], [map Fin [1, 1, 1, 1, 2, 1]]]"
  let ?q = "map Fin [0, 95 / 138, 50 / 69, 33 / 46, 199 / 276, 199 / 276]"
  have v: "validate_param_idx ?s 0 = Inr ()"
    by (simp add: validate_param_idx_def num_params_def sim_of_chains_def)
  have c: "num_chains ?s = 2" by (simp add: num_chains_def sim_of_chains_def)
  from monotone_pass_pair_sums_nonincreasing [OF two_chain_positive, of ?s 0]
  obtain rho' where
    r: "monotone_loop 5 3 (map Fin [0, 95 / 138, 50 / 69, 33 / 46, 49 / 69, 103 / 138]) = Inr rho'"
       "\<forall>t. odd t \<and> 3 \<le> t \<and> t + 2 \<le> 5
             \<longrightarrow> rho' ! (t + 1) + rho' ! (t + 2) \<le> rho' ! (t - 1) + rho' ! t"
       "validate_sim ?s = Inr () \<and> validate_param_idx ?s 0 = Inr ()
          \<and> ess_moments ?s 0 = Inr (6, [map Fin [5 / 36, - 7 / 216, - 1 / 108, - 1 / 72, - 1 / 54, 1 / 216],
              map Fin [5 / 36, - 7 / 216, - 1 / 108, - 1 / 72, - 1 / 54, 1 / 216]],
          Fin (1 / 6), Fin (23 / 36))
        \<longrightarrow> effective_sample_size ?s 0 = Inr (ess_of (num_chains ?s) 6 rho')"
    by blast
  from r(1) have q: "rho' = ?q" unfolding two_chain_monotone by simp
  have "odd (3::nat) \<and> (3::nat) \<le> 3 \<and> (3::nat) + 2 \<le> 5" by simp
  with r(2) have a: "rho' ! (3 + 1) + rho' ! (3 + 2) \<le> rho' ! (3 - 1) + rho' ! 3" by blast
  from r(3) validate_sim_of_chains v two_chain_moments
  have b: "effective_sample_size ?s 0 = Inr (ess_of (num_chains ?s) 6 rho')" by blast
  from r(1) a b show ?thesis unfolding q c by blast
qed

subsection \<open>Claim C4\<close>




subsection \<open>Claim C5\<close>

text \<open>
  Claim C5. On a rectangular matrix with at least two rows and one column the simplified
  variant returns \<open>m * n_samples / (1 + 2 * sum rho_hat_t)\<close>, the product taken in
  \<^verbatim>\<open>unsigned int\<close>, where \<open>rho_hat_t\<close> is the longest prefix of the values
  \<open>1 - (mean_var - mean over the chains of acov[chain][t]) / var_plus\<close> at the lags
  \<open>t = 1, 2, ...\<close> that are all at least 0: the loop stops at the first single
  negative value, only non-negative values are accumulated, and no monotone pass is applied.
  Here \<open>acov\<close> holds the autocovariances of the columns, \<open>mean_var\<close> is the mean of
  \<open>acov[chain][0] * n_samples / (n_samples - 1)\<close> over the chains, and \<open>var_plus\<close> is
  \<open>mean_var * (n_samples - 1) / n_samples\<close>, plus the variance of the chain means when
  there is more than one chain. These are the autocovariances, \<open>mean_var\<close> and
  \<open>var_plus\<close> that the full variant computes on the record that holds the columns as
  chains.
\<close>

theorem effective_sample_size2_single_value_cutoff:
  assumes "rectangular nm" and "2 \<le> nrow nm" and "nrow nm < 4294967296" and "0 < ncol nm"
  shows "let n_samples = nrow nm;
             m = ncol nm;
             acov = map autocovariance (columns nm);
             chain_mean = map mean (columns nm);
             chain_var = map (\<lambda>acov_chain. acov_chain ! 0 * of_uint n_samples
                                               / of_uint (n_samples - 1)) acov;
             mean_var = mean chain_var;
             var_plus = (if 1 < m
                         then mean_var * of_uint (n_samples - 1) / of_uint n_samples
                                + variance chain_mean
                         else mean_var * of_uint (n_samples - 1) / of_uint n_samples);
             rho_hat_t = takeWhile (\<lambda>rho_hat. rho_hat \<ge> Fin 0)
                           (map (\<lambda>t. Fin 1 - (mean_var
                                               - mean (map (\<lambda>acov_chain. acov_chain ! t) acov))
                                              / var_plus)
                              [1 ..< n_samples])
         in effective_sample_size2 nm
              = Inr (of_uint ((m * n_samples) mod 4294967296)
                       / (Fin 1 + Fin 2 * dsum rho_hat_t))
          \<and> ess_moments (sim_of_matrix nm) 0 = Inr (n_samples, acov, mean_var, var_plus)"
proof -
  let ?acov = "map autocovariance (columns nm)"
  let ?cv = "map (\<lambda>a. a ! 0 * of_uint (nrow nm) / of_uint (nrow nm - 1)) ?acov"
  let ?mv = "mean ?cv"
  let ?vp = "if 1 < ncol nm
             then ?mv * of_uint (nrow nm - 1) / of_uint (nrow nm) + variance (map mean (columns nm))
             else ?mv * of_uint (nrow nm - 1) / of_uint (nrow nm)"
  from assms(2) have p: "0 < nrow nm" by simp
  from assms(2,3) have us: "uint_sub (nrow nm) 1 = nrow nm - 1"
    by (intro uint_sub_small) simp_all
  have cv: "chain_var2 nm = Inr ?cv"
    using chain_var2_eq [OF assms(1) p] unfolding us acov2_def .
  have vp: "var_plus2 nm ?cv = ?vp"
    unfolding var_plus2_def var_plus_of_def Let_def us chain_mean2_def by simp
  from effective_sample_size2_formula [OF assms(1) p] cv
  have f: "effective_sample_size2 nm
       = Inr (ess_of (ncol nm) (nrow nm)
               (takeWhile (\<lambda>r. r \<ge> Fin 0)
                 (map (\<lambda>t. rho_hat_of ?mv (var_plus2 nm ?cv) (map (\<lambda>a. a ! t) (acov2 nm)))
                    [1 ..< nrow nm])))"
    by simp
  have e: "effective_sample_size2 nm
       = Inr (of_uint ((ncol nm * nrow nm) mod 4294967296)
                / (Fin 1 + Fin 2 * dsum (takeWhile (\<lambda>rho_hat. rho_hat \<ge> Fin 0)
                     (map (\<lambda>t. Fin 1 - (?mv - mean (map (\<lambda>a. a ! t) ?acov)) / ?vp)
                        [1 ..< nrow nm]))))"
    unfolding f vp ess_of_def rho_hat_of_def uint_mul_def acov2_def ..
  have m: "ess_moments (sim_of_matrix nm) 0 = Inr (nrow nm, ?acov, ?mv, ?vp)"
  proof -
    note w = sim_of_matrix_well_formed [OF assms]
    from assms(1) have len: "\<forall>c \<in> set (columns nm). length c = nrow nm"
      by (simp add: rectangular_def list_all_iff)
    have cvs: "chain_vars (columns nm) = ?cv"
      unfolding chain_vars_def map_map comp_def
      by (rule map_cong [OF refl]) (simp add: len)
    from ess_moments_well_formed [OF w(1)] obtain n_samples where
      e: "ess_moments (sim_of_matrix nm) 0
            = Inr (n_samples, map autocovariance (columns nm), mean (chain_vars (columns nm)),
                   var_plus_of (mean (chain_vars (columns nm))) n_samples (ncol nm)
                     (map mean (columns nm)))"
      and x: "\<exists>c \<in> set (columns nm). n_samples = length c"
      unfolding w(2,3) by blast
    from x len have n: "n_samples = nrow nm" by auto
    show ?thesis
      unfolding e n cvs var_plus_of_def Let_def us by simp
  qed
  from e m show ?thesis unfolding Let_def by (rule conjI)
qed

theorem effective_sample_size2_single_value_cutoff_witness:
  "effective_sample_size2 \<lparr>nrow = 4, columns = [map Fin [1, 2, 3, 5], map Fin [2, 4, 4, 6]]\<rparr>
     = Inr (Fin (4416 / 665))
   \<and> ess_moments
       (sim_of_matrix \<lparr>nrow = 4, columns = [map Fin [1, 2, 3, 5], map Fin [2, 4, 4, 6]]\<rparr>) 0
     = Inr (4, map autocovariance [map Fin [1, 2, 3, 5], map Fin [2, 4, 4, 6]],
            Fin (67 / 24), Fin (23 / 8))"
proof -
  let ?nm = "\<lparr>nrow = 4, columns = [map Fin [1, 2, 3, 5], map Fin [2, 4, 4, 6]]\<rparr>"
  have r: "rectangular ?nm" by (simp add: rectangular_def)
  have p: "2 \<le> nrow ?nm" "nrow ?nm < 4294967296" by simp_all
  have c: "0 < ncol ?nm" by (simp add: ncol_def)
  from effective_sample_size2_single_value_cutoff [OF r p c] show ?thesis
    by (simp add: Let_def ncol_def autocovariance_def autocovariance_at_def stat_defs
          upt_conv_Cons)
qed

subsection \<open>The full variant can exceed the number of draws\<close>

text \<open>
  On the single chain \<open>[1,2,4,3]\<close> the value at lag 1 is negative; the full variant stores
  it and returns \<open>120/19\<close>, more than the four draws, where the simplified variant
  returns 4.
\<close>

lemma full_variant_exceeds_nominal:
  "effective_sample_size (sim_of_chains 1 [4] [0] [[map Fin [1, 2, 4, 3]]]) 0 = Inr (Fin (120 / 19))
   \<and> (4::real) < 120 / 19
   \<and> effective_sample_size2 \<lparr>nrow = 4, columns = [map Fin [1, 2, 4, 3]]\<rparr> = Inr (Fin 4)"
proof -
  have a: "effective_sample_size (sim_of_chains 1 [4] [0] [[map Fin [1, 2, 4, 3]]]) 0
             = Inr (Fin (120 / 19))"
    by (simp add: effective_sample_size_def validate_sim_of_chains)
       (simp add: sim_of_chains_def sim_eval acov_sim_def chain_mean_sim_def chain_var_sim_def
          ess_moments_def positive_sequence_def Let_def ess_eval positive_loop.simps
          monotone_loop.simps upt_conv_Cons replicate_numeral)
  have b: "effective_sample_size2 \<lparr>nrow = 4, columns = [map Fin [1, 2, 4, 3]]\<rparr> = Inr (Fin 4)"
    by (simp add: ess_eval)
  from a b show ?thesis by simp
qed

end
